theory Spec2Isabelle
  imports Main "HOL-Library.Word"
begin

unbundle bit_operations_syntax

section \<open>Data model\<close>

text \<open>
  The driver of \<^verbatim>\<open>src/CCDLibrary.cpp\<close> is one object whose fields are shared between
  the application calls (\<^verbatim>\<open>available\<close>, \<^verbatim>\<open>read\<close>, \<^verbatim>\<open>write\<close>) and the interrupt handlers.
  The object is a record; every method takes the record and returns the updated one.
  The class is declared in \<^verbatim>\<open>CCDLibrary.h\<close>, which is not among the sources, so the
  types of the fields are read off their uses: bytes, cursors and lengths are compared
  with, assigned from and returned as \<^verbatim>\<open>uint8_t\<close>. They are 8-bit words, and the
  checksum addition wraps modulo 256 as in the source.
\<close>

type_synonym u8 = "8 word"
type_synonym u16 = "16 word"
type_synonym u32 = "32 word"

text \<open>
  C gives no meaning to an array access outside the array. The model makes that
  explicit: every indexed access is checked, and an access outside the array ends the
  call with \<open>Inl OutOfBounds\<close>. \<open>StillWaiting\<close> is the second way of not returning:
  the polling loop of \<^verbatim>\<open>write\<close> has not left the loop within the observed polls.
\<close>

datatype fault = OutOfBounds | StillWaiting

record CCDLibrary =
  interruptsAvailable :: bool
  verifyRxChecksum :: bool
  calculateTxChecksum :: bool
  calculatedOCRAValue :: u8
  busIdle :: bool
  message :: "u8 list"
  messageLength :: u8
  lastMessageRead :: bool
  serialRxBuffer :: "u8 list"
  serialRxBufferPos :: u8
  serialTxBuffer :: "u8 list"
  serialTxBufferPos :: u8
  serialTxLength :: u8
  lastSerialError :: u8
  UCSR1B :: u8
  UDR1 :: u8
  TCCR3A :: u8
  TCCR3B :: u8
  TCNT3 :: u16
  OCR3A :: u16
  TX_PORT :: bool

text \<open>
  \<open>UDR1\<close> holds the byte last written to the UART data register, \<open>TX_PORT\<close> the level
  last driven on the transmit pin (bit \<^verbatim>\<open>TX_P\<close> of the port). Pin direction and pull-up
  (lines 183--185) do not reach any field of the object and are left out.
\<close>

text \<open>
  Modelled from the spec: the arrays \<^verbatim>\<open>_message\<close>, \<^verbatim>\<open>_serialRxBuffer\<close> and
  \<^verbatim>\<open>_serialTxBuffer\<close> are declared in \<^verbatim>\<open>CCDLibrary.h\<close>, which is not among the sources.
  Section 3 of the spec gives both staging buffers the capacity 16 and a message at most
  16 bytes; the literal 16 in the receive handler agrees.
\<close>

definition valid :: "CCDLibrary \<Rightarrow> bool" where
  "valid s \<longleftrightarrow>
     length (message s) = 16 \<and> length (serialRxBuffer s) = 16 \<and> length (serialTxBuffer s) = 16"

text \<open>
  Bit numbers of the ATmega2560 registers, from the device header of avr-libc
  (\<^verbatim>\<open>UCSR1B\<close>: RXCIE1, UDRIE1, RXEN1, TXEN1; \<^verbatim>\<open>UCSR1A\<close>: FE1, DOR1;
  \<^verbatim>\<open>TCCR3B\<close>: WGM32, CS32, CS30).
\<close>

definition RXCIE1 :: nat where "RXCIE1 = 7"
definition UDRIE1 :: nat where "UDRIE1 = 5"
definition RXEN1 :: nat where "RXEN1 = 4"
definition TXEN1 :: nat where "TXEN1 = 3"
definition FE1 :: nat where "FE1 = 4"
definition DOR1 :: nat where "DOR1 = 3"
definition WGM32 :: nat where "WGM32 = 3"
definition CS32 :: nat where "CS32 = 2"
definition CS30 :: nat where "CS30 = 0"

section \<open>The byte loops\<close>

text \<open>
  \<^verbatim>\<open>for (uint8_t i = 0; i < n; i++) dst[i] = src[i];\<close> (lines 116, 132, 294, 308).
  The counter stays below \<open>n \<le> 255\<close>, so \<^verbatim>\<open>i++\<close> never wraps and a \<open>nat\<close> counter
  is exact.
\<close>

function copy_bytes :: "u8 list \<Rightarrow> u8 list \<Rightarrow> nat \<Rightarrow> nat \<Rightarrow> fault + u8 list" where
  "copy_bytes dst src i n =
     (if i < n then
        (if i < length dst \<and> i < length src
         then copy_bytes (dst[i := src ! i]) src (Suc i) n
         else Inl OutOfBounds)
      else Inr dst)"
  by pat_completeness auto
termination
  by (relation "measure (\<lambda>(dst, src, i, n). n - i)") auto

declare copy_bytes.simps [simp del]

text \<open>
  \<^verbatim>\<open>for (uint8_t i = 0; i < n; i++) checksum += src[i];\<close> (lines 138, 289), the
  addition in \<^verbatim>\<open>uint8_t\<close>.
\<close>

function sum_bytes :: "u8 list \<Rightarrow> nat \<Rightarrow> nat \<Rightarrow> u8 \<Rightarrow> fault + u8" where
  "sum_bytes src i n checksum =
     (if i < n then
        (if i < length src
         then sum_bytes src (Suc i) n (checksum + src ! i)
         else Inl OutOfBounds)
      else Inr checksum)"
  by pat_completeness auto
termination
  by (relation "measure (\<lambda>(src, i, n, checksum). n - i)") auto

declare sum_bytes.simps [simp del]

section \<open>Public transport API: available and read\<close>

definition available :: "CCDLibrary \<Rightarrow> bool" where
  "available s = (\<not> lastMessageRead s)"

text \<open>
  \<^verbatim>\<open>read\<close> (lines 113--120) copies \<^verbatim>\<open>_messageLength\<close> bytes into the caller's buffer
  \<open>target\<close>, sets \<^verbatim>\<open>_lastMessageRead\<close> and returns \<^verbatim>\<open>_messageLength\<close>. The result is
  the returned length, the caller's buffer afterwards and the object afterwards.
\<close>

definition read :: "CCDLibrary \<Rightarrow> u8 list \<Rightarrow> fault + (u8 \<times> u8 list \<times> CCDLibrary)" where
  "read s target =
     (case copy_bytes target (message s) 0 (unat (messageLength s)) of
        Inl f \<Rightarrow> Inl f
      | Inr target' \<Rightarrow> Inr (messageLength s, target', s\<lparr>lastMessageRead := True\<rparr>))"

section \<open>Message Assembler\<close>

text \<open>
  \<^verbatim>\<open>processMessage\<close> (lines 280--315). The assignment \<^verbatim>\<open>_lastMessageRead = false\<close> of
  line 313 stands after the inner \<^verbatim>\<open>if\<close>/\<^verbatim>\<open>else\<close>, inside the outer \<^verbatim>\<open>if\<close>: it runs on
  all three inner paths.
\<close>

definition processMessage :: "CCDLibrary \<Rightarrow> fault + CCDLibrary" where
  "processMessage s =
     (if serialRxBufferPos s > 0 then
        (if verifyRxChecksum s \<and> serialRxBufferPos s > 1 then
           (let checksumLocation = serialRxBufferPos s - 1 in
            case sum_bytes (serialRxBuffer s) 0 (unat checksumLocation) 0 of
              Inl f \<Rightarrow> Inl f
            | Inr checksum \<Rightarrow>
                if unat checksumLocation < length (serialRxBuffer s) then
                  (if checksum = serialRxBuffer s ! unat checksumLocation then
                     (case copy_bytes (message s) (serialRxBuffer s) 0 (unat (serialRxBufferPos s)) of
                        Inl f \<Rightarrow> Inl f
                      | Inr m \<Rightarrow>
                          Inr (s\<lparr>message := m, messageLength := serialRxBufferPos s,
                                 serialRxBufferPos := 0, lastMessageRead := False\<rparr>))
                   else
                     Inr (s\<lparr>messageLength := 0, serialRxBufferPos := 0,
                            lastMessageRead := False\<rparr>))
                else Inl OutOfBounds)
         else
           (case copy_bytes (message s) (serialRxBuffer s) 0 (unat (serialRxBufferPos s)) of
              Inl f \<Rightarrow> Inl f
            | Inr m \<Rightarrow>
                Inr (s\<lparr>message := m, messageLength := serialRxBufferPos s,
                       serialRxBufferPos := 0, lastMessageRead := False\<rparr>)))
      else Inr s)"

section \<open>Idle timer and interrupt handlers\<close>

definition busIdleTimerStart :: "CCDLibrary \<Rightarrow> CCDLibrary" where
  "busIdleTimerStart s =
     s\<lparr>TCCR3B := (TCCR3B s OR push_bit WGM32 1) OR (push_bit CS32 1 OR push_bit CS30 1),
       TCNT3 := 0,
       OCR3A := ucast (calculatedOCRAValue s)\<rparr>"

definition busIdleTimerStop :: "CCDLibrary \<Rightarrow> CCDLibrary" where
  "busIdleTimerStop s = s\<lparr>TCCR3A := 0, TCCR3B := 0, TCNT3 := 0, OCR3A := 0\<rparr>"

definition handle_TIMER3_COMPA_vect :: "CCDLibrary \<Rightarrow> fault + CCDLibrary" where
  "handle_TIMER3_COMPA_vect s = processMessage ((busIdleTimerStop s)\<lparr>busIdle := True\<rparr>)"

definition busIdleInterruptHandler :: "CCDLibrary \<Rightarrow> fault + CCDLibrary" where
  "busIdleInterruptHandler s = processMessage (s\<lparr>busIdle := True\<rparr>)"

definition activeByteInterruptHandler :: "CCDLibrary \<Rightarrow> CCDLibrary" where
  "activeByteInterruptHandler s = s\<lparr>busIdle := False\<rparr>"

text \<open>
  \<^verbatim>\<open>handle_USART1_RX_vect\<close> (lines 334--359). \<open>usr\<close> and \<open>data\<close> are what the handler
  reads from \<^verbatim>\<open>UCSR1A\<close> and \<^verbatim>\<open>UDR1\<close>. The macro \<^verbatim>\<open>UART_BUFFER_OVERFLOW\<close> is defined
  in the absent header and is the parameter \<open>overflow\<close>, already cut to the eight bits
  of \<^verbatim>\<open>lastRxError\<close>.
\<close>

definition handle_USART1_RX_vect :: "u8 \<Rightarrow> u8 \<Rightarrow> u8 \<Rightarrow> CCDLibrary \<Rightarrow> CCDLibrary" where
  "handle_USART1_RX_vect overflow usr data s =
     (let s1 = (if \<not> interruptsAvailable s then busIdleTimerStart s else s);
          s2 = s1\<lparr>busIdle := False\<rparr>;
          lastRxError = usr AND (push_bit FE1 1 OR push_bit DOR1 1)
      in if serialRxBufferPos s2 < 16 then
           s2\<lparr>serialRxBuffer := (serialRxBuffer s2)[unat (serialRxBufferPos s2) := data],
              serialRxBufferPos := serialRxBufferPos s2 + 1,
              lastSerialError := lastRxError\<rparr>
         else
           s2\<lparr>lastSerialError := lastRxError OR overflow\<rparr>)"

definition handle_USART1_UDRE_vect :: "CCDLibrary \<Rightarrow> fault + CCDLibrary" where
  "handle_USART1_UDRE_vect s =
     (if serialTxBufferPos s < serialTxLength s then
        (if unat (serialTxBufferPos s) < length (serialTxBuffer s) then
           Inr (s\<lparr>UDR1 := serialTxBuffer s ! unat (serialTxBufferPos s),
                  serialTxBufferPos := serialTxBufferPos s + 1\<rparr>)
         else Inl OutOfBounds)
      else
        Inr (s\<lparr>UCSR1B := UCSR1B s AND NOT (push_bit UDRIE1 1),
               serialTxBufferPos := 0,
               serialTxLength := 0\<rparr>))"

text \<open>
  The handlers run to completion and preempt the application. An interrupt is an
  \<open>event\<close>; \<open>isr\<close> is the dispatch of the vector table (lines 30--38, 317--320,
  329--332, 361--364).
\<close>

datatype event =
    USART1_RX_vect u8 u8
  | USART1_UDRE_vect
  | TIMER3_COMPA_vect
  | isrIdle
  | isrActiveByte

fun isr :: "u8 \<Rightarrow> event \<Rightarrow> CCDLibrary \<Rightarrow> fault + CCDLibrary" where
  "isr overflow (USART1_RX_vect usr data) s = Inr (handle_USART1_RX_vect overflow usr data s)"
| "isr overflow USART1_UDRE_vect s = handle_USART1_UDRE_vect s"
| "isr overflow TIMER3_COMPA_vect s = handle_TIMER3_COMPA_vect s"
| "isr overflow isrIdle s = busIdleInterruptHandler s"
| "isr overflow isrActiveByte s = Inr (activeByteInterruptHandler s)"

fun run_isrs :: "u8 \<Rightarrow> event list \<Rightarrow> CCDLibrary \<Rightarrow> fault + CCDLibrary" where
  "run_isrs overflow [] s = Inr s"
| "run_isrs overflow (e # es) s =
     (case isr overflow e s of Inl f \<Rightarrow> Inl f | Inr s' \<Rightarrow> run_isrs overflow es s')"

text \<open>A run of byte-received interrupts, each with the status and data byte it reads.\<close>

fun receive_all :: "u8 \<Rightarrow> (u8 \<times> u8) list \<Rightarrow> CCDLibrary \<Rightarrow> CCDLibrary" where
  "receive_all overflow [] s = s"
| "receive_all overflow ((usr, data) # rest) s =
     receive_all overflow rest (handle_USART1_RX_vect overflow usr data s)"

section \<open>Public transport API: write\<close>

text \<open>
  What \<^verbatim>\<open>write\<close> reads from outside the object: \<open>millis0\<close> is the clock read at line
  146; each element of \<open>polls\<close> is one pass through the body of the polling loop, the
  clock read at line 150 and the handlers that run before the loop condition is
  evaluated again; \<open>RX_PIN k\<close> is the level of the receive pin at the \<open>k\<close>-th read of it
  during the bit-banged first byte. Preemption is modelled at the polling loop only,
  which is where \<^verbatim>\<open>write\<close> depends on it (\<^verbatim>\<open>_busIdle\<close> is set by handlers only).
\<close>

record environment =
  millis0 :: u32
  polls :: "(u32 \<times> event list) list"
  RX_PIN :: "nat \<Rightarrow> bool"

text \<open>Lines 132--143: stage the frame, stamp the checksum, reset the cursor.\<close>

definition write_stage :: "CCDLibrary \<Rightarrow> u8 list \<Rightarrow> u8 \<Rightarrow> fault + CCDLibrary" where
  "write_stage s buffer bufferLength =
     (case copy_bytes (serialTxBuffer s) buffer 0 (unat bufferLength) of
        Inl f \<Rightarrow> Inl f
      | Inr tx \<Rightarrow>
          if calculateTxChecksum s \<and> bufferLength > 1 then
            (let checksumLocation = bufferLength - 1 in
             case sum_bytes buffer 0 (unat checksumLocation) 0 of
               Inl f \<Rightarrow> Inl f
             | Inr checksum \<Rightarrow>
                 if unat checksumLocation < length tx then
                   Inr (s\<lparr>serialTxBuffer := tx[unat checksumLocation := checksum],
                          serialTxBufferPos := 0, serialTxLength := bufferLength\<rparr>)
                 else Inl OutOfBounds)
          else
            Inr (s\<lparr>serialTxBuffer := tx, serialTxBufferPos := 0,
                   serialTxLength := bufferLength\<rparr>))"

text \<open>
  Lines 145--151: \<^verbatim>\<open>while (!_busIdle && !timeout)\<close>, the subtraction in \<^verbatim>\<open>uint32_t\<close>.
  When the observed polls are used up and the loop has not ended, the result is
  \<open>Inl StillWaiting\<close>.
\<close>

fun wait_idle :: "u8 \<Rightarrow> u32 \<Rightarrow> (u32 \<times> event list) list \<Rightarrow> bool \<Rightarrow> CCDLibrary
    \<Rightarrow> fault + (bool \<times> CCDLibrary)" where
  "wait_idle overflow timeout_start [] timeout s =
     (if \<not> busIdle s \<and> \<not> timeout then Inl StillWaiting else Inr (timeout, s))"
| "wait_idle overflow timeout_start ((now, evs) # rest) timeout s =
     (if \<not> busIdle s \<and> \<not> timeout then
        (case run_isrs overflow evs s of
           Inl f \<Rightarrow> Inl f
         | Inr s' \<Rightarrow>
             wait_idle overflow timeout_start rest
               (if now - timeout_start > 1000 then True else timeout) s')
      else Inr (timeout, s))"

text \<open>The local variables of the bit-banged first byte (lines 189--193).\<close>

record arbitration =
  IDbyteRX :: u8
  currentRxBit :: bool
  currentTxBit :: bool
  error :: bool
  TX_P :: bool
  reads :: nat

text \<open>\<^verbatim>\<open>currentRxBit = (RX_PIN & (1 << RX_P))\<close>: one read of the receive pin.\<close>

definition sample :: "(nat \<Rightarrow> bool) \<Rightarrow> arbitration \<Rightarrow> arbitration" where
  "sample rx_pin a = a\<lparr>currentRxBit := rx_pin (reads a), reads := Suc (reads a)\<rparr>"

text \<open>The body of the loop of lines 211--225 for data bit \<open>i\<close>.\<close>

definition data_bit :: "(nat \<Rightarrow> bool) \<Rightarrow> u8 \<Rightarrow> nat \<Rightarrow> arbitration \<Rightarrow> arbitration" where
  "data_bit rx_pin IDbyteTX i a =
     (let a1 = (if \<not> error a
                then a\<lparr>currentTxBit := bit IDbyteTX i, TX_P := bit IDbyteTX i\<rparr>
                else a);
          a2 = sample rx_pin a1;
          a3 = (if currentRxBit a2 then a2\<lparr>IDbyteRX := IDbyteRX a2 OR push_bit i 1\<rparr> else a2)
      in if currentRxBit a3 \<noteq> currentTxBit a3 then a3\<lparr>error := True\<rparr> else a3)"

function data_bits :: "(nat \<Rightarrow> bool) \<Rightarrow> u8 \<Rightarrow> nat \<Rightarrow> arbitration \<Rightarrow> arbitration" where
  "data_bits rx_pin IDbyteTX i a =
     (if i < 8 then data_bits rx_pin IDbyteTX (Suc i) (data_bit rx_pin IDbyteTX i a) else a)"
  by pat_completeness auto
termination
  by (relation "measure (\<lambda>(rx_pin, IDbyteTX, i, a). 8 - i)") auto

declare data_bits.simps [simp del]

text \<open>
  Lines 186--198: the variables as initialised, the transmit pin idling high, and the
  check that the receive pin is high.
\<close>

definition idle_check :: "(nat \<Rightarrow> bool) \<Rightarrow> arbitration" where
  "idle_check rx_pin =
     (let a = sample rx_pin
                \<lparr>IDbyteRX = 0, currentRxBit = False, currentTxBit = False, error = False,
                 TX_P = True, reads = 0\<rparr>
      in if \<not> currentRxBit a then a\<lparr>error := True\<rparr> else a)"

text \<open>Lines 200--208: the start bit, driven and read only when no error is flagged.\<close>

definition start_bit :: "(nat \<Rightarrow> bool) \<Rightarrow> arbitration \<Rightarrow> arbitration" where
  "start_bit rx_pin a =
     (if \<not> error a then
        (let b = sample rx_pin (a\<lparr>TX_P := False\<rparr>)
         in if currentRxBit b then b\<lparr>error := True\<rparr> else b)
      else a)"

text \<open>Lines 227--232: the stop bit.\<close>

definition stop_bit :: "(nat \<Rightarrow> bool) \<Rightarrow> arbitration \<Rightarrow> arbitration" where
  "stop_bit rx_pin a =
     (let b = sample rx_pin (if \<not> error a then a\<lparr>TX_P := True\<rparr> else a)
      in if \<not> currentRxBit b then b\<lparr>error := True\<rparr> else b)"

text \<open>Lines 186--232 in sequence: idle check, start bit, eight data bits, stop bit.\<close>

definition first_byte :: "(nat \<Rightarrow> bool) \<Rightarrow> u8 \<Rightarrow> arbitration" where
  "first_byte rx_pin IDbyteTX =
     stop_bit rx_pin (data_bits rx_pin IDbyteTX 0 (start_bit rx_pin (idle_check rx_pin)))"

text \<open>Lines 176--277, the branch without the transceiver chip.\<close>

definition arbitrate :: "(nat \<Rightarrow> bool) \<Rightarrow> CCDLibrary \<Rightarrow> fault + (u8 \<times> CCDLibrary)" where
  "arbitrate rx_pin s =
     (if 0 < length (serialTxBuffer s) \<and> 0 < length (serialRxBuffer s) then
        (let s1 = s\<lparr>UCSR1B := UCSR1B s AND (NOT (push_bit RXCIE1 1) AND NOT (push_bit RXEN1 1)
                                AND NOT (push_bit TXEN1 1) AND NOT (push_bit UDRIE1 1))\<rparr>;
             IDbyteTX = serialTxBuffer s1 ! 0;
             a = first_byte rx_pin IDbyteTX;
             s2 = busIdleTimerStart (s1\<lparr>TX_PORT := TX_P a\<rparr>);
             s3 = s2\<lparr>serialRxBuffer := (serialRxBuffer s2)[0 := IDbyteRX a],
                     serialRxBufferPos := 1\<rparr>
         in if \<not> error a \<and> IDbyteRX a = IDbyteTX then
              (let s4 = s3\<lparr>serialRxBuffer := (serialRxBuffer s3)[0 := IDbyteRX a],
                           serialRxBufferPos := 1,
                           serialTxBufferPos := 1\<rparr>;
                   s5 = s4\<lparr>UCSR1B := UCSR1B s4 OR
                             (push_bit RXCIE1 1 OR push_bit RXEN1 1 OR push_bit TXEN1 1)\<rparr>
               in Inr (0, s5\<lparr>UCSR1B := UCSR1B s5 OR push_bit UDRIE1 1\<rparr>))
            else
              (let s4 = s3\<lparr>serialRxBuffer := (serialRxBuffer s3)[0 := IDbyteRX a],
                           serialRxBufferPos := 1,
                           serialTxBufferPos := 0,
                           serialTxLength := 0\<rparr>
               in Inr (3, s4\<lparr>UCSR1B := UCSR1B s4 OR
                               (push_bit RXCIE1 1 OR push_bit RXEN1 1 OR push_bit TXEN1 1)\<rparr>)))
      else Inl OutOfBounds)"

text \<open>
  \<^verbatim>\<open>CCDLibrary::write\<close> (lines 122--278); \<open>write\<close> alone is a reserved word of
  Isabelle. The result is the returned status (0 ok, 1 zero buffer length, 2 timeout,
  3 data collision) and the object afterwards.
\<close>

definition CCDLibrary_write :: "u8 \<Rightarrow> environment \<Rightarrow> CCDLibrary \<Rightarrow> u8 list \<Rightarrow> u8
    \<Rightarrow> fault + (u8 \<times> CCDLibrary)" where
  "CCDLibrary_write overflow env s buffer bufferLength =
     (if bufferLength = 0 then Inr (1, s)
      else
        (case write_stage s buffer bufferLength of
           Inl f \<Rightarrow> Inl f
         | Inr s1 \<Rightarrow>
             (case wait_idle overflow (millis0 env) (polls env) False s1 of
                Inl f \<Rightarrow> Inl f
              | Inr (timeout, s2) \<Rightarrow>
                  if timeout then Inr (2, s2)
                  else
                    (let s3 = s2\<lparr>busIdle := False\<rparr>
                     in if interruptsAvailable s3 then
                          Inr (0, s3\<lparr>UCSR1B := UCSR1B s3 OR push_bit UDRIE1 1\<rparr>)
                        else arbitrate (RX_PIN env) s3))))"

section \<open>Notions used in the statements\<close>

text \<open>The received frame: the bytes of the staging buffer below the cursor.\<close>

definition frame :: "CCDLibrary \<Rightarrow> u8 list" where
  "frame s = take (unat (serialRxBufferPos s)) (serialRxBuffer s)"

text \<open>
  The checksum rule in the words of the spec (sections 4.4 and 8): the last byte equals
  the sum mod 256 of all preceding bytes. It is compared below with what
  \<open>processMessage\<close> and \<open>write_stage\<close> compute.
\<close>

definition checksum_ok :: "u8 list \<Rightarrow> bool" where
  "checksum_ok f \<longleftrightarrow> unat (last f) = sum_list (map unat (butlast f)) mod 256"

text \<open>
  The Message Assembler accepts the staged frame: it returns, and the message slot then
  holds exactly the frame, with its length, marked available.
\<close>

definition accepted :: "CCDLibrary \<Rightarrow> bool" where
  "accepted s =
     (case processMessage s of
        Inl f \<Rightarrow> False
      | Inr s' \<Rightarrow>
          messageLength s' = serialRxBufferPos s \<and>
          take (unat (serialRxBufferPos s)) (message s') = frame s \<and>
          available s')"

text \<open>What the handlers leave alone: the configuration, the staged transmit bytes, the array sizes.\<close>

definition same_setup :: "CCDLibrary \<Rightarrow> CCDLibrary \<Rightarrow> bool" where
  "same_setup s s' \<longleftrightarrow>
     interruptsAvailable s' = interruptsAvailable s \<and>
     verifyRxChecksum s' = verifyRxChecksum s \<and>
     calculateTxChecksum s' = calculateTxChecksum s \<and>
     serialTxBuffer s' = serialTxBuffer s \<and>
     length (serialRxBuffer s') = length (serialRxBuffer s) \<and>
     length (message s') = length (message s)"

text \<open>
  The state in which no handler can leave its arrays: the arrays have their declared
  size, the receive cursor and the recorded transmit length are within it.
\<close>

definition sound :: "CCDLibrary \<Rightarrow> bool" where
  "sound s \<longleftrightarrow>
     valid s \<and> unat (serialRxBufferPos s) \<le> 16 \<and> unat (serialTxLength s) \<le> 16"

text \<open>The clock passes one second at some poll of the observed sequence.\<close>

definition second_passes :: "u32 \<Rightarrow> (u32 \<times> event list) list \<Rightarrow> bool" where
  "second_passes timeout_start ps \<longleftrightarrow> list_ex (\<lambda>p. fst p - timeout_start > 1000) ps"

subsection \<open>Concrete objects and environments for the examples\<close>

definition zeros16 :: "u8 list" where
  "zeros16 = [0, 0, 0, 0, 0, 0, 0, 0, 0, 0, 0, 0, 0, 0, 0, 0]"

text \<open>
  An object in software-arbitration mode with both checksum options on, all buffers
  empty, nothing to read, the bus busy.
\<close>

definition quiet :: CCDLibrary where
  "quiet =
     \<lparr>interruptsAvailable = False, verifyRxChecksum = True, calculateTxChecksum = True,
      calculatedOCRAValue = 19, busIdle = False,
      message = zeros16, messageLength = 0, lastMessageRead = True,
      serialRxBuffer = zeros16, serialRxBufferPos = 0,
      serialTxBuffer = zeros16, serialTxBufferPos = 0, serialTxLength = 0,
      lastSerialError = 0, UCSR1B = 0x98, UDR1 = 0,
      TCCR3A = 0, TCCR3B = 0, TCNT3 = 0, OCR3A = 0, TX_PORT = True\<rparr>"

text \<open>Three bytes staged whose last byte is not the sum of the first two.\<close>

definition mismatch_state :: CCDLibrary where
  "mismatch_state =
     quiet\<lparr>serialRxBuffer := [0x10, 0x20, 0x31, 0, 0, 0, 0, 0, 0, 0, 0, 0, 0, 0, 0, 0],
           serialRxBufferPos := 3\<rparr>"

text \<open>Three bytes staged whose last byte is the sum of the first two.\<close>

definition match_state :: CCDLibrary where
  "match_state =
     quiet\<lparr>serialRxBuffer := [0x10, 0x20, 0x30, 0, 0, 0, 0, 0, 0, 0, 0, 0, 0, 0, 0, 0],
           serialRxBufferPos := 3\<rparr>"

text \<open>The object after the Message Assembler has accepted the frame of \<open>match_state\<close>.\<close>

definition assembled_state :: CCDLibrary where
  "assembled_state =
     quiet\<lparr>serialRxBuffer := [0x10, 0x20, 0x30, 0, 0, 0, 0, 0, 0, 0, 0, 0, 0, 0, 0, 0],
           message := [0x10, 0x20, 0x30, 0, 0, 0, 0, 0, 0, 0, 0, 0, 0, 0, 0, 0],
           messageLength := 3, lastMessageRead := False\<rparr>"

text \<open>
  Twenty received bytes, each read with a clean status: fifteen bytes, their sum
  \<open>0x78\<close>, and four more.
\<close>

definition twenty :: "(u8 \<times> u8) list" where
  "twenty =
     [(0, 0x01), (0, 0x02), (0, 0x03), (0, 0x04), (0, 0x05), (0, 0x06), (0, 0x07), (0, 0x08),
      (0, 0x09), (0, 0x0A), (0, 0x0B), (0, 0x0C), (0, 0x0D), (0, 0x0E), (0, 0x0F), (0, 0x78),
      (0, 0xA1), (0, 0xA2), (0, 0xA3), (0, 0xA4)]"

text \<open>
  The clock passes one second while the bus stays busy and no handler runs; the receive
  pin would read high throughout.
\<close>

definition timeout_env :: environment where
  "timeout_env = \<lparr>millis0 = 5000, polls = [(5400, []), (6001, [])], RX_PIN = (\<lambda>k. True)\<rparr>"

text \<open>
  The frame \<open>0x24 0x10 0x00\<close> staged in \<open>quiet\<close> (the last byte stamped with the
  checksum \<open>0x34\<close>), and the same object once the idle timer has expired.
\<close>

definition staged_state :: CCDLibrary where
  "staged_state =
     quiet\<lparr>serialTxBuffer := [0x24, 0x10, 0x34, 0, 0, 0, 0, 0, 0, 0, 0, 0, 0, 0, 0, 0],
           serialTxBufferPos := 0, serialTxLength := 3\<rparr>"

definition idle_state :: CCDLibrary where
  "idle_state = staged_state\<lparr>busIdle := True\<rparr>"

text \<open>
  In both environments the idle timer expires during the first poll. The receive pin
  reads high at the idle check and the stop bit and low at the start bit. In
  \<open>won_env\<close> the data bits echo \<open>0x24\<close> (bits 2 and 5 high); in \<open>lost_env\<close> another
  module sends \<open>0x04\<close> and pulls bit 5 low.
\<close>

definition won_env :: environment where
  "won_env =
     \<lparr>millis0 = 5000, polls = [(5001, [TIMER3_COMPA_vect])],
      RX_PIN = (\<lambda>k. k = 0 \<or> k = 4 \<or> k = 7 \<or> k = 10)\<rparr>"

definition lost_env :: environment where
  "lost_env =
     \<lparr>millis0 = 5000, polls = [(5001, [TIMER3_COMPA_vect])],
      RX_PIN = (\<lambda>k. k = 0 \<or> k = 4 \<or> k = 10)\<rparr>"

text \<open>
  An object in hardware-assisted mode with the bus idle, and an environment whose
  clock would pass the second at the first poll.
\<close>

definition transceiver_state :: CCDLibrary where
  "transceiver_state = quiet\<lparr>interruptsAvailable := True, busIdle := True\<rparr>"

definition transceiver_env :: environment where
  "transceiver_env = \<lparr>millis0 = 5000, polls = [(6001, [])], RX_PIN = (\<lambda>k. True)\<rparr>"

section \<open>The byte loops, solved\<close>

lemma copy_bytes_length: "copy_bytes dst src i n = Inr m \<Longrightarrow> length m = length dst"
proof (induction dst src i n arbitrary: m rule: copy_bytes.induct)
  case (1 dst src i n)
  show ?case
  proof (cases "i < n")
    case True
    with "1.prems" have ok: "i < length dst \<and> i < length src"
      and rec: "copy_bytes (dst[i := src ! i]) src (Suc i) n = Inr m"
      by (auto simp: copy_bytes.simps [of dst src i n] split: if_splits)
    from "1.IH" [OF True ok rec] show ?thesis by simp
  next
    case False
    with "1.prems" show ?thesis by (simp add: copy_bytes.simps [of dst src i n])
  qed
qed

lemma copy_bytes_ok:
  "i \<le> n \<Longrightarrow> n \<le> length dst \<Longrightarrow> n \<le> length src \<Longrightarrow>
   copy_bytes dst src i n = Inr (take i dst @ drop i (take n src) @ drop n dst)"
proof (induction dst src i n rule: copy_bytes.induct)
  case (1 dst src i n)
  show ?case
  proof (cases "i < n")
    case True
    with "1.prems" have ok: "i < length dst \<and> i < length src" by simp
    have len: "n \<le> length (dst[i := src ! i])" using "1.prems" by simp
    have step: "copy_bytes dst src i n = copy_bytes (dst[i := src ! i]) src (Suc i) n"
      using True ok by (simp add: copy_bytes.simps [of dst src i n])
    have a: "take (Suc i) (dst[i := src ! i]) = take i dst @ [src ! i]"
      using ok by (simp add: take_Suc_conv_app_nth)
    have b: "drop i (take n src) = src ! i # drop (Suc i) (take n src)"
      using True ok by (simp add: Cons_nth_drop_Suc [symmetric])
    have c: "drop n (dst[i := src ! i]) = drop n dst"
      using True by simp
    from "1.IH" [OF True ok _ len "1.prems"(3)] True
    have "copy_bytes (dst[i := src ! i]) src (Suc i) n =
          Inr (take (Suc i) (dst[i := src ! i]) @ drop (Suc i) (take n src) @ drop n (dst[i := src ! i]))"
      by simp
    with step a b c show ?thesis by simp
  next
    case False
    with "1.prems" have "i = n" by simp
    then show ?thesis using "1.prems" by (simp add: copy_bytes.simps [of dst src n n])
  qed
qed

lemma sum_bytes_ok:
  "i \<le> n \<Longrightarrow> n \<le> length src \<Longrightarrow>
   sum_bytes src i n c = Inr (c + sum_list (drop i (take n src)))"
proof (induction src i n c rule: sum_bytes.induct)
  case (1 src i n c)
  show ?case
  proof (cases "i < n")
    case True
    with "1.prems" have ok: "i < length src" by simp
    have b: "drop i (take n src) = src ! i # drop (Suc i) (take n src)"
      using True ok by (simp add: Cons_nth_drop_Suc [symmetric])
    from "1.IH" [OF True ok _ "1.prems"(2)] True
    have "sum_bytes src (Suc i) n (c + src ! i) = Inr (c + src ! i + sum_list (drop (Suc i) (take n src)))"
      by simp
    then show ?thesis using True ok b by (simp add: sum_bytes.simps [of src i n c] add.assoc)
  next
    case False
    with "1.prems" have "i = n" by simp
    then show ?thesis by (simp add: sum_bytes.simps [of src n n c])
  qed
qed

lemma unat_sum_list: "unat (sum_list ws :: 8 word) = sum_list (map unat ws) mod 256"
proof (induction ws)
  case Nil
  show ?case by simp
next
  case (Cons w ws)
  have "unat (w + sum_list ws) = (unat w + unat (sum_list ws)) mod 256"
    by (simp add: unat_word_ariths)
  also have "\<dots> = (unat w + sum_list (map unat ws) mod 256) mod 256"
    by (simp add: Cons.IH)
  also have "\<dots> = (unat w + sum_list (map unat ws)) mod 256"
    by (simp add: mod_add_right_eq)
  finally show ?case by simp
qed

section \<open>The Message Assembler, solved\<close>

lemma unat_pred: "(1::u8) < p \<Longrightarrow> unat (p - 1) = unat p - 1"
  by (rule unat_minus_one) auto

lemma pos_gt_1: "(1::u8) < p \<longleftrightarrow> 2 \<le> unat p"
  by (auto simp: word_less_nat_alt)

lemma pos_gt_0: "(0::u8) < p \<longleftrightarrow> 1 \<le> unat p"
  by (auto simp: word_less_nat_alt)

lemma frame_last:
  assumes "1 \<le> unat (serialRxBufferPos s)" "unat (serialRxBufferPos s) \<le> length (serialRxBuffer s)"
  shows "last (frame s) = serialRxBuffer s ! (unat (serialRxBufferPos s) - 1)"
    and "butlast (frame s) = take (unat (serialRxBufferPos s) - 1) (serialRxBuffer s)"
proof -
  let ?p = "unat (serialRxBufferPos s)"
  have ne: "frame s \<noteq> []" and len: "length (frame s) = ?p"
    using assms by (auto simp: frame_def)
  show "last (frame s) = serialRxBuffer s ! (?p - 1)"
    using assms ne len by (simp add: last_conv_nth frame_def)
  show "butlast (frame s) = take (?p - 1) (serialRxBuffer s)"
    using assms by (simp add: frame_def butlast_take)
qed

lemma checksum_ok_frame:
  assumes "1 \<le> unat (serialRxBufferPos s)" "unat (serialRxBufferPos s) \<le> length (serialRxBuffer s)"
  shows "checksum_ok (frame s) \<longleftrightarrow>
         sum_list (take (unat (serialRxBufferPos s) - 1) (serialRxBuffer s)) =
           serialRxBuffer s ! (unat (serialRxBufferPos s) - 1)"
  unfolding checksum_ok_def frame_last [OF assms] unat_sum_list [symmetric]
  by (auto simp: word_unat_eq_iff)

lemma processMessage_reject:
  assumes "verifyRxChecksum s" "2 \<le> unat (serialRxBufferPos s)"
    "unat (serialRxBufferPos s) \<le> length (serialRxBuffer s)"
    "\<not> checksum_ok (frame s)"
  shows "processMessage s =
         Inr (s\<lparr>messageLength := 0, serialRxBufferPos := 0, lastMessageRead := False\<rparr>)"
proof -
  let ?p = "unat (serialRxBufferPos s)"
  have gt: "1 < serialRxBufferPos s" "0 < serialRxBufferPos s"
    using assms(2) by (auto simp: word_less_nat_alt)
  have loc: "unat (serialRxBufferPos s - 1) = ?p - 1"
    using gt by (simp add: unat_pred)
  have sum: "sum_bytes (serialRxBuffer s) 0 (?p - 1) 0 = Inr (sum_list (take (?p - 1) (serialRxBuffer s)))"
    using assms(3) by (simp add: sum_bytes_ok)
  have ne: "sum_list (take (?p - 1) (serialRxBuffer s)) \<noteq> serialRxBuffer s ! (?p - 1)"
    using assms by (simp add: checksum_ok_frame)
  have inb: "?p - 1 < length (serialRxBuffer s)" using assms by simp
  show ?thesis
    using assms(1) gt ne inb sum by (simp add: processMessage_def Let_def loc)
qed

lemma processMessage_accept:
  assumes "1 \<le> unat (serialRxBufferPos s)"
    "unat (serialRxBufferPos s) \<le> length (serialRxBuffer s)"
    "unat (serialRxBufferPos s) \<le> length (message s)"
    "\<not> verifyRxChecksum s \<or> unat (serialRxBufferPos s) = 1 \<or> checksum_ok (frame s)"
  shows "processMessage s =
         Inr (s\<lparr>message := frame s @ drop (unat (serialRxBufferPos s)) (message s),
                messageLength := serialRxBufferPos s,
                serialRxBufferPos := 0, lastMessageRead := False\<rparr>)"
proof -
  let ?p = "unat (serialRxBufferPos s)"
  have gt0: "0 < serialRxBufferPos s"
    using assms(1) by (auto simp: word_less_nat_alt)
  have copy: "copy_bytes (message s) (serialRxBuffer s) 0 ?p = Inr (frame s @ drop ?p (message s))"
    using assms(2,3) by (simp add: copy_bytes_ok frame_def)
  show ?thesis
  proof (cases "verifyRxChecksum s \<and> 1 < serialRxBufferPos s")
    case False
    then show ?thesis using gt0 by (auto simp: processMessage_def copy)
  next
    case True
    then have two: "2 \<le> ?p" by (simp add: word_less_nat_alt)
    with assms(4) True have ok: "checksum_ok (frame s)" by simp
    have loc: "unat (serialRxBufferPos s - 1) = ?p - 1"
      using True by (simp add: unat_pred)
    have sum: "sum_bytes (serialRxBuffer s) 0 (?p - 1) 0 = Inr (sum_list (take (?p - 1) (serialRxBuffer s)))"
      using assms(2) by (simp add: sum_bytes_ok)
    have eq: "sum_list (take (?p - 1) (serialRxBuffer s)) = serialRxBuffer s ! (?p - 1)"
      using ok assms(1,2) by (simp add: checksum_ok_frame)
    have inb: "?p - 1 < length (serialRxBuffer s)" using assms two by simp
    show ?thesis
      using True gt0 eq inb sum by (simp add: processMessage_def Let_def loc copy)
  qed
qed

lemma processMessage_empty: "serialRxBufferPos s = 0 \<Longrightarrow> processMessage s = Inr s"
  by (simp add: processMessage_def)

lemmas example_defs = quiet_def zeros16_def mismatch_state_def match_state_def assembled_state_def
  twenty_def timeout_env_def staged_state_def idle_state_def won_env_def lost_env_def
  transceiver_state_def transceiver_env_def

lemma read_ok:
  assumes "unat (messageLength s) \<le> length (message s)" "unat (messageLength s) \<le> length target"
  shows "read s target =
         Inr (messageLength s,
              take (unat (messageLength s)) (message s) @ drop (unat (messageLength s)) target,
              s\<lparr>lastMessageRead := True\<rparr>)"
  using assms by (simp add: read_def copy_bytes_ok)

section \<open>The receive handler, solved\<close>

lemma unat_succ: "unat (p :: u8) < 16 \<Longrightarrow> unat (p + 1) = Suc (unat p)"
proof -
  assume "unat p < 16"
  then have "unat p + unat (1 :: u8) < 2 ^ LENGTH(8)" by simp
  then have "unat (p + 1) = unat p + unat (1 :: u8)" by (simp only: unat_add_lem)
  then show ?thesis by simp
qed

lemma rx_store:
  assumes "unat (serialRxBufferPos s) < 16"
  shows "serialRxBuffer (handle_USART1_RX_vect overflow usr data s) =
           (serialRxBuffer s)[unat (serialRxBufferPos s) := data]"
    and "unat (serialRxBufferPos (handle_USART1_RX_vect overflow usr data s)) =
           Suc (unat (serialRxBufferPos s))"
proof -
  have lt: "serialRxBufferPos s < 16"
    using assms by (simp add: word_less_nat_alt)
  show "serialRxBuffer (handle_USART1_RX_vect overflow usr data s) =
        (serialRxBuffer s)[unat (serialRxBufferPos s) := data]"
    using lt by (simp add: handle_USART1_RX_vect_def busIdleTimerStart_def Let_def)
  have "unat (serialRxBufferPos s + 1) = Suc (unat (serialRxBufferPos s))"
    using assms by (rule unat_succ)
  then show "unat (serialRxBufferPos (handle_USART1_RX_vect overflow usr data s)) =
        Suc (unat (serialRxBufferPos s))"
    using lt by (simp add: handle_USART1_RX_vect_def busIdleTimerStart_def Let_def)
qed

lemma rx_drop:
  assumes "unat (serialRxBufferPos s) = 16"
  shows "serialRxBuffer (handle_USART1_RX_vect overflow usr data s) = serialRxBuffer s"
    and "serialRxBufferPos (handle_USART1_RX_vect overflow usr data s) = serialRxBufferPos s"
    and "lastSerialError (handle_USART1_RX_vect overflow usr data s) =
           (usr AND (push_bit FE1 1 OR push_bit DOR1 1)) OR overflow"
proof -
  have nlt: "\<not> serialRxBufferPos s < 16"
    using assms by (simp add: word_less_nat_alt)
  show "serialRxBuffer (handle_USART1_RX_vect overflow usr data s) = serialRxBuffer s"
    and "serialRxBufferPos (handle_USART1_RX_vect overflow usr data s) = serialRxBufferPos s"
    and "lastSerialError (handle_USART1_RX_vect overflow usr data s) =
           (usr AND (push_bit FE1 1 OR push_bit DOR1 1)) OR overflow"
    using nlt by (simp_all add: handle_USART1_RX_vect_def busIdleTimerStart_def Let_def)
qed

lemma rx_frame:
  "message (handle_USART1_RX_vect overflow usr data s) = message s"
  "messageLength (handle_USART1_RX_vect overflow usr data s) = messageLength s"
  "lastMessageRead (handle_USART1_RX_vect overflow usr data s) = lastMessageRead s"
  "verifyRxChecksum (handle_USART1_RX_vect overflow usr data s) = verifyRxChecksum s"
  "length (serialRxBuffer (handle_USART1_RX_vect overflow usr data s)) = length (serialRxBuffer s)"
  by (simp_all add: handle_USART1_RX_vect_def busIdleTimerStart_def Let_def)

lemma receive_all_frame:
  "message (receive_all overflow bs s) = message s \<and>
   verifyRxChecksum (receive_all overflow bs s) = verifyRxChecksum s \<and>
   length (serialRxBuffer (receive_all overflow bs s)) = length (serialRxBuffer s)"
proof (induction bs arbitrary: s)
  case Nil
  show ?case by simp
next
  case (Cons b bs)
  obtain usr data where b: "b = (usr, data)" by (cases b)
  from Cons.IH [of "handle_USART1_RX_vect overflow usr data s"]
  show ?case by (simp only: b receive_all.simps rx_frame)
qed

lemma receive_all_buffer:
  assumes "length (serialRxBuffer s) = 16" "unat (serialRxBufferPos s) \<le> 16"
  shows "serialRxBuffer (receive_all overflow bs s) =
           take (unat (serialRxBufferPos s)) (serialRxBuffer s) @
           take (16 - unat (serialRxBufferPos s)) (map snd bs) @
           drop (unat (serialRxBufferPos s) + length bs) (serialRxBuffer s) \<and>
         unat (serialRxBufferPos (receive_all overflow bs s)) =
           min 16 (unat (serialRxBufferPos s) + length bs)"
  using assms
proof (induction bs arbitrary: s)
  case Nil
  then show ?case by simp
next
  case (Cons b bs)
  obtain usr data where b: "b = (usr, data)" by (cases b)
  let ?p = "unat (serialRxBufferPos s)"
  let ?s1 = "handle_USART1_RX_vect overflow usr data s"
  show ?case
  proof (cases "?p < 16")
    case True
    have buf1: "serialRxBuffer ?s1 = (serialRxBuffer s)[?p := data]"
      and pos1: "unat (serialRxBufferPos ?s1) = Suc ?p"
      using True by (rule rx_store)+
    have len1: "length (serialRxBuffer ?s1) = 16" "unat (serialRxBufferPos ?s1) \<le> 16"
      using Cons.prems True by (simp_all add: buf1 pos1)
    have a: "take (Suc ?p) ((serialRxBuffer s)[?p := data]) = take ?p (serialRxBuffer s) @ [data]"
      using True Cons.prems by (simp add: take_Suc_conv_app_nth)
    have c: "drop (Suc ?p + length bs) ((serialRxBuffer s)[?p := data]) =
             drop (Suc ?p + length bs) (serialRxBuffer s)"
      by simp
    have d: "take (16 - ?p) (data # map snd bs) = data # take (16 - Suc ?p) (map snd bs)"
      using True by (simp add: take_Cons')
    from Cons.IH [OF len1] show ?thesis
      using True by (simp add: b buf1 pos1 a c d del: list_update.simps take_Suc_Cons)
  next
    case False
    with Cons.prems have p: "?p = 16" by simp
    have buf1: "serialRxBuffer ?s1 = serialRxBuffer s"
      and pos1: "serialRxBufferPos ?s1 = serialRxBufferPos s"
      using p by (rule rx_drop)+
    have len1: "length (serialRxBuffer ?s1) = 16" "unat (serialRxBufferPos ?s1) \<le> 16"
      using Cons.prems by (simp_all add: buf1 pos1)
    from Cons.IH [OF len1] show ?thesis
      using Cons.prems by (simp add: b buf1 pos1 p)
  qed
qed


section \<open>What the handlers preserve\<close>

lemma same_setup_refl: "same_setup s s"
  by (simp add: same_setup_def)

lemma same_setup_trans: "same_setup a b \<Longrightarrow> same_setup b c \<Longrightarrow> same_setup a c"
  by (simp add: same_setup_def)

lemma processMessage_setup:
  assumes "processMessage s = Inr s'"
  shows "same_setup s s'"
proof (cases "serialRxBufferPos s > 0")
  case False
  with assms show ?thesis by (simp add: processMessage_def same_setup_def)
next
  case True
  let ?accept = "\<lambda>m. s\<lparr>message := m, messageLength := serialRxBufferPos s,
                       serialRxBufferPos := 0, lastMessageRead := False\<rparr>"
  let ?reject = "s\<lparr>messageLength := 0, serialRxBufferPos := 0, lastMessageRead := False\<rparr>"
  from assms True
  have "s' = ?reject \<or>
        (\<exists>m. copy_bytes (message s) (serialRxBuffer s) 0 (unat (serialRxBufferPos s)) = Inr m \<and>
             s' = ?accept m)"
    by (simp add: processMessage_def Let_def split: if_splits sum.splits)
  then show ?thesis
  proof
    assume "s' = ?reject"
    then show ?thesis by (simp add: same_setup_def)
  next
    assume "\<exists>m. copy_bytes (message s) (serialRxBuffer s) 0 (unat (serialRxBufferPos s)) = Inr m \<and>
             s' = ?accept m"
    then obtain m where m: "copy_bytes (message s) (serialRxBuffer s) 0 (unat (serialRxBufferPos s)) = Inr m"
      and s': "s' = ?accept m" by blast
    from copy_bytes_length [OF m] s' show ?thesis by (simp add: same_setup_def)
  qed
qed

lemma rx_setup: "same_setup s (handle_USART1_RX_vect overflow usr data s)"
  by (simp add: same_setup_def handle_USART1_RX_vect_def busIdleTimerStart_def Let_def)

lemma udre_setup: "handle_USART1_UDRE_vect s = Inr s' \<Longrightarrow> same_setup s s'"
  by (auto simp: same_setup_def handle_USART1_UDRE_vect_def split: if_splits)

lemma isr_setup: "isr overflow e s = Inr s' \<Longrightarrow> same_setup s s'"
proof (cases e)
  case (USART1_RX_vect usr data)
  assume "isr overflow e s = Inr s'"
  with USART1_RX_vect show ?thesis by (auto simp: rx_setup)
next
  case USART1_UDRE_vect
  assume "isr overflow e s = Inr s'"
  with USART1_UDRE_vect show ?thesis by (simp add: udre_setup)
next
  case TIMER3_COMPA_vect
  assume "isr overflow e s = Inr s'"
  with TIMER3_COMPA_vect
  have "processMessage ((busIdleTimerStop s)\<lparr>busIdle := True\<rparr>) = Inr s'"
    by (simp add: handle_TIMER3_COMPA_vect_def)
  from processMessage_setup [OF this] show ?thesis
    by (simp add: same_setup_def busIdleTimerStop_def)
next
  case isrIdle
  assume "isr overflow e s = Inr s'"
  with isrIdle have "processMessage (s\<lparr>busIdle := True\<rparr>) = Inr s'"
    by (simp add: busIdleInterruptHandler_def)
  from processMessage_setup [OF this] show ?thesis
    by (simp add: same_setup_def)
next
  case isrActiveByte
  assume "isr overflow e s = Inr s'"
  with isrActiveByte show ?thesis
    by (auto simp: same_setup_def activeByteInterruptHandler_def)
qed

lemma run_isrs_setup: "run_isrs overflow es s = Inr s' \<Longrightarrow> same_setup s s'"
proof (induction es arbitrary: s)
  case Nil
  then show ?case by (simp add: same_setup_refl)
next
  case (Cons e es)
  from Cons.prems obtain s1 where s1: "isr overflow e s = Inr s1"
    and rest: "run_isrs overflow es s1 = Inr s'"
    by (auto split: sum.splits)
  from isr_setup [OF s1] Cons.IH [OF rest] show ?case by (rule same_setup_trans)
qed

lemma wait_idle_setup:
  "wait_idle overflow t0 ps timeout s = Inr (t, s') \<Longrightarrow> same_setup s s'"
proof (induction ps arbitrary: timeout s)
  case Nil
  then show ?case by (auto simp: same_setup_refl split: if_splits)
next
  case (Cons p ps)
  obtain now evs where p: "p = (now, evs)" by (cases p)
  show ?case
  proof (cases "\<not> busIdle s \<and> \<not> timeout")
    case False
    with Cons.prems have "s' = s" by (auto simp: p)
    then show ?thesis by (simp add: same_setup_refl)
  next
    case True
    with Cons.prems obtain s1 tm where s1: "run_isrs overflow evs s = Inr s1"
      and rest: "wait_idle overflow t0 ps tm s1 = Inr (t, s')"
      by (auto simp: p split: sum.splits)
    from run_isrs_setup [OF s1] Cons.IH [OF rest] show ?thesis by (rule same_setup_trans)
  qed
qed

section \<open>Staging a frame, solved\<close>

lemma write_stage_ok:
  assumes "unat n \<le> length (serialTxBuffer s)" "unat n \<le> length buffer"
  shows "\<exists>tx. write_stage s buffer n =
              Inr (s\<lparr>serialTxBuffer := tx, serialTxBufferPos := 0, serialTxLength := n\<rparr>) \<and>
            (if calculateTxChecksum s \<and> 2 \<le> unat n
             then tx = (take (unat n) buffer @ drop (unat n) (serialTxBuffer s))
                         [unat n - 1 := sum_list (take (unat n - 1) buffer)]
             else tx = take (unat n) buffer @ drop (unat n) (serialTxBuffer s))"
proof -
  let ?copied = "take (unat n) buffer @ drop (unat n) (serialTxBuffer s)"
  have copy: "copy_bytes (serialTxBuffer s) buffer 0 (unat n) = Inr ?copied"
    using assms by (simp add: copy_bytes_ok)
  show ?thesis
  proof (cases "calculateTxChecksum s \<and> 2 \<le> unat n")
    case False
    then have "\<not> (calculateTxChecksum s \<and> 1 < n)" by (simp add: pos_gt_1)
    then have "write_stage s buffer n =
        Inr (s\<lparr>serialTxBuffer := ?copied, serialTxBufferPos := 0, serialTxLength := n\<rparr>)"
      by (auto simp: write_stage_def copy)
    with False show ?thesis by auto
  next
    case True
    then have gt: "1 < n" by (simp add: pos_gt_1)
    have loc: "unat (n - 1) = unat n - 1" using gt by (rule unat_pred)
    have sum: "sum_bytes buffer 0 (unat n - 1) 0 = Inr (sum_list (take (unat n - 1) buffer))"
      using assms(2) by (simp add: sum_bytes_ok)
    have "length ?copied = length (serialTxBuffer s)" using assms by (simp add: min_def)
    moreover have "unat n - 1 < length (serialTxBuffer s)" using assms True by arith
    ultimately have inb: "unat n - 1 < length ?copied" by simp
    have "write_stage s buffer n =
        Inr (s\<lparr>serialTxBuffer := ?copied[unat n - 1 := sum_list (take (unat n - 1) buffer)],
               serialTxBufferPos := 0, serialTxLength := n\<rparr>)"
      using True gt inb sum by (simp add: write_stage_def copy Let_def loc)
    with True show ?thesis by auto
  qed
qed

lemma write_stage_frame:
  assumes "write_stage s buffer n = Inr s1"
  shows "interruptsAvailable s1 = interruptsAvailable s \<and>
         calculateTxChecksum s1 = calculateTxChecksum s \<and>
         serialRxBuffer s1 = serialRxBuffer s \<and> message s1 = message s \<and>
         serialRxBufferPos s1 = serialRxBufferPos s \<and>
         length (serialTxBuffer s1) = length (serialTxBuffer s) \<and>
         serialTxBufferPos s1 = 0 \<and> serialTxLength s1 = n"
proof -
  from assms obtain tx where tx: "copy_bytes (serialTxBuffer s) buffer 0 (unat n) = Inr tx"
    by (auto simp: write_stage_def split: sum.splits)
  have len: "length tx = length (serialTxBuffer s)" using tx by (rule copy_bytes_length)
  from assms tx len show ?thesis
    by (auto simp: write_stage_def Let_def split: sum.splits if_splits)
qed

lemma staged_first_byte:
  assumes "write_stage s buffer n = Inr s1" "n \<noteq> 0"
    "unat n \<le> length (serialTxBuffer s)" "unat n \<le> length buffer"
  shows "serialTxBuffer s1 ! 0 = buffer ! 0"
proof -
  have pos: "0 < unat n" using assms(2) by (simp add: unat_gt_0)
  from write_stage_ok [OF assms(3,4)] assms(1)
  have "serialTxBuffer s1 =
          (if calculateTxChecksum s \<and> 2 \<le> unat n
           then (take (unat n) buffer @ drop (unat n) (serialTxBuffer s))
                  [unat n - 1 := sum_list (take (unat n - 1) buffer)]
           else take (unat n) buffer @ drop (unat n) (serialTxBuffer s))"
    by (auto split: if_splits)
  moreover have "(take (unat n) buffer @ drop (unat n) (serialTxBuffer s)) ! 0 = buffer ! 0"
    using pos assms(4) by (simp add: nth_append)
  ultimately show ?thesis using pos by (auto simp: nth_list_update)
qed

lemma arbitration_entry:
  assumes "\<not> interruptsAvailable s" "valid s" "bufferLength \<noteq> 0"
    "unat bufferLength \<le> 16" "unat bufferLength \<le> length buffer"
    "write_stage s buffer bufferLength = Inr s1"
    "wait_idle overflow (millis0 env) (polls env) False s1 = Inr (False, s2)"
  shows "CCDLibrary_write overflow env s buffer bufferLength = arbitrate (RX_PIN env) (s2\<lparr>busIdle := False\<rparr>)"
    and "serialTxBuffer s2 ! 0 = buffer ! 0"
    and "length (serialTxBuffer s2) = 16" and "length (serialRxBuffer s2) = 16"
    and "serialTxBuffer s2 = serialTxBuffer s1"
proof -
  note fr = write_stage_frame [OF assms(6)]
  note st = wait_idle_setup [OF assms(7)]
  have sw: "\<not> interruptsAvailable s2"
    using fr st assms(1) by (simp add: same_setup_def)
  show "CCDLibrary_write overflow env s buffer bufferLength = arbitrate (RX_PIN env) (s2\<lparr>busIdle := False\<rparr>)"
    using assms(3,6,7) sw by (simp add: CCDLibrary_write_def Let_def)
  show tx: "serialTxBuffer s2 = serialTxBuffer s1"
    using st by (simp add: same_setup_def)
  have "unat bufferLength \<le> length (serialTxBuffer s)"
    using assms(2,4) by (simp add: valid_def)
  from staged_first_byte [OF assms(6,3) this assms(5)] tx
  show "serialTxBuffer s2 ! 0 = buffer ! 0" by simp
  show "length (serialTxBuffer s2) = 16"
    using tx fr assms(2) by (simp add: valid_def)
  show "length (serialRxBuffer s2) = 16"
    using st fr assms(2) by (simp add: same_setup_def valid_def)
qed

section \<open>The checksum on both sides\<close>

lemma arbitrate_tx:
  "arbitrate rx_pin s = Inr (st, s') \<Longrightarrow> serialTxBuffer s' = serialTxBuffer s"
  by (auto simp: arbitrate_def Let_def busIdleTimerStart_def split: if_splits)

lemma write_keeps_staged_bytes:
  assumes "write_stage s buffer n = Inr s1"
    and "CCDLibrary_write overflow env s buffer n = Inr (st, s')" and "n \<noteq> 0"
  shows "serialTxBuffer s' = serialTxBuffer s1"
proof -
  from assms obtain timeout s2
    where wait: "wait_idle overflow (millis0 env) (polls env) False s1 = Inr (timeout, s2)"
    by (auto simp: CCDLibrary_write_def split: sum.splits)
  have tx: "serialTxBuffer s2 = serialTxBuffer s1"
    using wait_idle_setup [OF wait] by (simp add: same_setup_def)
  show ?thesis
  proof (cases timeout)
    case True
    with assms wait tx show ?thesis by (simp add: CCDLibrary_write_def)
  next
    case nt: False
    show ?thesis
    proof (cases "interruptsAvailable s2")
      case True
      with assms wait tx nt show ?thesis by (auto simp: CCDLibrary_write_def Let_def)
    next
      case False
      with assms wait nt
      have "arbitrate (RX_PIN env) (s2\<lparr>busIdle := False\<rparr>) = Inr (st, s')"
        by (simp add: CCDLibrary_write_def Let_def)
      from arbitrate_tx [OF this] tx show ?thesis by simp
    qed
  qed
qed

lemma staged_checksum:
  assumes "calculateTxChecksum s" "2 \<le> unat n"
    "unat n \<le> length (serialTxBuffer s)" "unat n \<le> length buffer"
    "write_stage s buffer n = Inr s1"
  shows "serialTxBuffer s1 ! (unat n - 1) = sum_list (take (unat n - 1) buffer)"
    and "take (unat n - 1) (serialTxBuffer s1) = take (unat n - 1) buffer"
    and "length (serialTxBuffer s1) = length (serialTxBuffer s)"
proof -
  let ?copied = "take (unat n) buffer @ drop (unat n) (serialTxBuffer s)"
  from write_stage_ok [OF assms(3,4)] assms(1,2,5)
  have tx: "serialTxBuffer s1 = ?copied[unat n - 1 := sum_list (take (unat n - 1) buffer)]"
    by auto
  have len: "length ?copied = length (serialTxBuffer s)"
    using assms(3,4) by (simp add: min_def)
  have inb: "unat n - 1 < length (serialTxBuffer s)" using assms(2,3) by arith
  show "serialTxBuffer s1 ! (unat n - 1) = sum_list (take (unat n - 1) buffer)"
    unfolding tx using len inb by (simp only: nth_list_update_eq)
  have "take (unat n - 1) ?copied = take (unat n - 1) buffer"
    using assms(2,4) by (simp add: min_def)
  then show "take (unat n - 1) (serialTxBuffer s1) = take (unat n - 1) buffer"
    unfolding tx by (simp only: take_update_cancel order_refl)
  show "length (serialTxBuffer s1) = length (serialTxBuffer s)"
    unfolding tx using len by (simp only: length_list_update)
qed

lemma stamped_frame_ok:
  assumes "2 \<le> n" "n \<le> length tx" "tx ! (n - 1) = sum_list (take (n - 1) tx)"
  shows "checksum_ok (take n tx)"
proof -
  have ne: "take n tx \<noteq> []" using assms(1,2) by auto
  have l: "last (take n tx) = tx ! (n - 1)"
    using assms(1,2) ne by (simp add: last_conv_nth)
  have b: "butlast (take n tx) = take (n - 1) tx"
    using assms(2) by (simp add: butlast_take)
  show ?thesis
    unfolding checksum_ok_def l b assms(3) by (rule unat_sum_list)
qed

lemma accepted_iff:
  assumes "verifyRxChecksum r" "2 \<le> unat (serialRxBufferPos r)"
    "unat (serialRxBufferPos r) \<le> length (serialRxBuffer r)"
    "unat (serialRxBufferPos r) \<le> length (message r)"
  shows "accepted r \<longleftrightarrow> checksum_ok (frame r)"
proof (cases "checksum_ok (frame r)")
  case True
  have one: "1 \<le> unat (serialRxBufferPos r)" using assms(2) by simp
  have len: "length (frame r) = unat (serialRxBufferPos r)"
    using assms(3) by (simp add: frame_def)
  from processMessage_accept [OF one assms(3,4)] True
  have "processMessage r =
      Inr (r\<lparr>message := frame r @ drop (unat (serialRxBufferPos r)) (message r),
             messageLength := serialRxBufferPos r,
             serialRxBufferPos := 0, lastMessageRead := False\<rparr>)"
    by simp
  then have "accepted r" by (simp add: accepted_def len available_def)
  with True show ?thesis by simp
next
  case False
  from processMessage_reject [OF assms(1,2,3) False]
  have "processMessage r =
      Inr (r\<lparr>messageLength := 0, serialRxBufferPos := 0, lastMessageRead := False\<rparr>)" .
  moreover have "serialRxBufferPos r \<noteq> 0" using assms(2) by auto
  ultimately have "\<not> accepted r" by (auto simp: accepted_def)
  with False show ?thesis by simp
qed

lemma receive_staged_frame:
  assumes "verifyRxChecksum r0" "valid r0" "serialRxBufferPos r0 = 0"
    "2 \<le> length f" "length f \<le> 16" "checksum_ok f"
  shows "accepted (receive_all overflow (map (Pair usr) f) r0)"
proof -
  let ?r = "receive_all overflow (map (Pair usr) f) r0"
  have len: "length (serialRxBuffer r0) = 16" "length (message r0) = 16"
    using assms(2) by (simp_all add: valid_def)
  have p0: "unat (serialRxBufferPos r0) = 0" using assms(3) by simp
  have p16: "unat (serialRxBufferPos r0) \<le> 16" using p0 by simp
  note buf = receive_all_buffer [OF len(1) p16, of overflow "map (Pair usr) f"]
  have sm: "map (snd \<circ> Pair usr) f = f" by (induction f) simp_all
  have upos: "unat (serialRxBufferPos ?r) = length f"
    using buf assms(5) by (simp add: p0)
  have rbuf: "serialRxBuffer ?r = f @ drop (length f) (serialRxBuffer r0)"
    using buf assms(5) by (simp add: p0 sm)
  have fr: "frame ?r = f"
    by (simp add: frame_def upos rbuf)
  have keep: "message ?r = message r0" "verifyRxChecksum ?r = verifyRxChecksum r0"
    "length (serialRxBuffer ?r) = 16"
    using receive_all_frame [of overflow "map (Pair usr) f" r0] len by simp_all
  have "accepted ?r \<longleftrightarrow> checksum_ok (frame ?r)"
    using assms(1,4,5) by (intro accepted_iff) (simp_all add: keep upos len)
  then show ?thesis using assms(6) by (simp add: fr)
qed

section \<open>Returning from the handlers and from write\<close>

lemma processMessage_sound:
  assumes "sound s"
  shows "\<exists>s'. processMessage s = Inr s' \<and> sound s'"
proof (cases "unat (serialRxBufferPos s) = 0")
  case True
  then have "serialRxBufferPos s = 0" by (simp add: unat_eq_0)
  then have "processMessage s = Inr s" by (rule processMessage_empty)
  with assms show ?thesis by simp
next
  case False
  let ?p = "unat (serialRxBufferPos s)"
  have len: "length (serialRxBuffer s) = 16" "length (message s) = 16" "?p \<le> 16"
    using assms by (simp_all add: sound_def valid_def)
  have one: "1 \<le> ?p" using False by simp
  have inb: "?p \<le> length (serialRxBuffer s)" "?p \<le> length (message s)"
    using len by simp_all
  show ?thesis
  proof (cases "verifyRxChecksum s \<and> 2 \<le> ?p \<and> \<not> checksum_ok (frame s)")
    case True
    then have "processMessage s =
        Inr (s\<lparr>messageLength := 0, serialRxBufferPos := 0, lastMessageRead := False\<rparr>)"
      using inb by (intro processMessage_reject) simp_all
    moreover have "sound (s\<lparr>messageLength := 0, serialRxBufferPos := 0, lastMessageRead := False\<rparr>)"
      using assms by (simp add: sound_def valid_def)
    ultimately show ?thesis by simp
  next
    case no: False
    have "\<not> verifyRxChecksum s \<or> ?p = 1 \<or> checksum_ok (frame s)"
      using no one by auto
    from processMessage_accept [OF one inb this]
    have "processMessage s =
        Inr (s\<lparr>message := frame s @ drop ?p (message s), messageLength := serialRxBufferPos s,
               serialRxBufferPos := 0, lastMessageRead := False\<rparr>)" .
    moreover have "length (frame s @ drop ?p (message s)) = 16"
      using len by (simp add: frame_def)
    then have "sound (s\<lparr>message := frame s @ drop ?p (message s),
                        messageLength := serialRxBufferPos s,
                        serialRxBufferPos := 0, lastMessageRead := False\<rparr>)"
      using assms by (simp add: sound_def valid_def)
    ultimately show ?thesis by simp
  qed
qed

lemma rx_sound:
  assumes "sound s"
  shows "sound (handle_USART1_RX_vect overflow usr data s)"
proof -
  let ?s' = "handle_USART1_RX_vect overflow usr data s"
  have "same_setup s ?s'" by (rule rx_setup)
  moreover have "serialTxLength ?s' = serialTxLength s"
    by (simp add: handle_USART1_RX_vect_def busIdleTimerStart_def Let_def)
  moreover have "unat (serialRxBufferPos ?s') \<le> 16"
  proof (cases "unat (serialRxBufferPos s) < 16")
    case True
    from rx_store(2) [OF True, of overflow usr data] True show ?thesis by simp
  next
    case False
    with assms have "unat (serialRxBufferPos s) = 16" by (simp add: sound_def)
    from rx_drop(2) [OF this, of overflow usr data] assms show ?thesis by (simp add: sound_def)
  qed
  ultimately show ?thesis using assms by (simp add: sound_def valid_def same_setup_def)
qed

lemma udre_sound:
  assumes "sound s"
  shows "\<exists>s'. handle_USART1_UDRE_vect s = Inr s' \<and> sound s'"
proof (cases "serialTxBufferPos s < serialTxLength s")
  case True
  then have "unat (serialTxBufferPos s) < unat (serialTxLength s)"
    by (simp add: word_less_nat_alt)
  then have "unat (serialTxBufferPos s) < length (serialTxBuffer s)"
    using assms by (simp add: sound_def valid_def)
  then show ?thesis
    using True assms by (simp add: handle_USART1_UDRE_vect_def sound_def valid_def)
next
  case False
  then show ?thesis
    using assms by (simp add: handle_USART1_UDRE_vect_def sound_def valid_def)
qed

lemma isr_sound:
  assumes "sound s"
  shows "\<exists>s'. isr overflow e s = Inr s' \<and> sound s'"
proof (cases e)
  case (USART1_RX_vect usr data)
  then show ?thesis using rx_sound [OF assms] by simp
next
  case USART1_UDRE_vect
  then show ?thesis using udre_sound [OF assms] by simp
next
  case TIMER3_COMPA_vect
  have "sound ((busIdleTimerStop s)\<lparr>busIdle := True\<rparr>)"
    using assms by (simp add: sound_def valid_def busIdleTimerStop_def)
  from processMessage_sound [OF this] TIMER3_COMPA_vect show ?thesis
    by (simp add: handle_TIMER3_COMPA_vect_def)
next
  case isrIdle
  have "sound (s\<lparr>busIdle := True\<rparr>)"
    using assms by (simp add: sound_def valid_def)
  from processMessage_sound [OF this] isrIdle show ?thesis
    by (simp add: busIdleInterruptHandler_def)
next
  case isrActiveByte
  then show ?thesis
    using assms by (simp add: activeByteInterruptHandler_def sound_def valid_def)
qed

lemma run_isrs_sound:
  "sound s \<Longrightarrow> \<exists>s'. run_isrs overflow es s = Inr s' \<and> sound s'"
proof (induction es arbitrary: s)
  case Nil
  then show ?case by simp
next
  case (Cons e es)
  from isr_sound [OF Cons.prems] obtain s1
    where s1: "isr overflow e s = Inr s1" and snd: "sound s1" by blast
  from Cons.IH [OF snd] s1 show ?case by simp
qed

lemma wait_idle_returns:
  "sound s \<Longrightarrow> timeout \<or> second_passes t0 ps \<Longrightarrow>
   \<exists>t s'. wait_idle overflow t0 ps timeout s = Inr (t, s') \<and> sound s'"
proof (induction ps arbitrary: timeout s)
  case Nil
  then show ?case by (auto simp: second_passes_def)
next
  case (Cons p ps)
  obtain now evs where p: "p = (now, evs)" by (cases p)
  show ?case
  proof (cases "\<not> busIdle s \<and> \<not> timeout")
    case False
    then show ?thesis using Cons.prems(1) by (auto simp: p)
  next
    case True
    from run_isrs_sound [OF Cons.prems(1)] obtain s1
      where s1: "run_isrs overflow evs s = Inr s1" and snd: "sound s1" by blast
    let ?t = "if now - t0 > 1000 then True else timeout"
    have "?t \<or> second_passes t0 ps"
      using Cons.prems(2) True by (auto simp: second_passes_def p)
    from Cons.IH [OF snd this] obtain t s'
      where "wait_idle overflow t0 ps ?t s1 = Inr (t, s')" and "sound s'" by blast
    then show ?thesis using True s1 by (auto simp: p split: if_splits)
  qed
qed

lemma arbitrate_returns:
  assumes "valid s"
  shows "\<exists>st s'. arbitrate rx_pin s = Inr (st, s')"
  using assms by (simp add: arbitrate_def Let_def valid_def)

lemma write_returns:
  assumes "sound s" "unat bufferLength \<le> 16" "unat bufferLength \<le> length buffer"
    "second_passes (millis0 env) (polls env)"
  shows "\<exists>st s'. CCDLibrary_write overflow env s buffer bufferLength = Inr (st, s')"
proof (cases "bufferLength = 0")
  case True
  then show ?thesis by (simp add: CCDLibrary_write_def)
next
  case False
  have v: "valid s" using assms(1) by (simp add: sound_def)
  have inb: "unat bufferLength \<le> length (serialTxBuffer s)"
    using v assms(2) by (simp add: valid_def)
  from write_stage_ok [OF inb assms(3)]
  obtain s1 where stage: "write_stage s buffer bufferLength = Inr s1" by blast
  have "sound s1"
    using write_stage_frame [OF stage] assms(1,2) by (simp add: sound_def valid_def)
  from wait_idle_returns [OF this, of False "millis0 env" "polls env" overflow] assms(4)
  obtain t s2 where wait: "wait_idle overflow (millis0 env) (polls env) False s1 = Inr (t, s2)"
    and s2: "sound s2" by blast
  have "valid (s2\<lparr>busIdle := False\<rparr>)" using s2 by (simp add: sound_def valid_def)
  from arbitrate_returns [OF this, of "RX_PIN env"]
  obtain st s' where "arbitrate (RX_PIN env) (s2\<lparr>busIdle := False\<rparr>) = Inr (st, s')" by blast
  then show ?thesis
    using False stage wait by (simp add: CCDLibrary_write_def Let_def)
qed

lemma transceiver_status:
  assumes "interruptsAvailable s"
    and "CCDLibrary_write overflow env s buffer bufferLength = Inr (st, s')"
  shows "st \<noteq> 3 \<and> (st = 0 \<or> st = 1 \<or> st = 2) \<and>
         (st = 0 \<longrightarrow> bit (UCSR1B s') UDRIE1 \<and> \<not> busIdle s')"
proof (cases "bufferLength = 0")
  case True
  with assms(2) show ?thesis by (simp add: CCDLibrary_write_def)
next
  case False
  with assms(2) obtain s1 timeout s2
    where stage: "write_stage s buffer bufferLength = Inr s1"
      and wait: "wait_idle overflow (millis0 env) (polls env) False s1 = Inr (timeout, s2)"
    by (auto simp: CCDLibrary_write_def split: sum.splits)
  have "interruptsAvailable s1"
    using write_stage_frame [OF stage] assms(1) by simp
  then have hw: "interruptsAvailable s2"
    using wait_idle_setup [OF wait] by (simp add: same_setup_def)
  show ?thesis
  proof (cases timeout)
    case True
    with assms(2) False stage wait show ?thesis by (simp add: CCDLibrary_write_def)
  next
    case nt: False
    with assms(2) False stage wait hw
    have "st = 0" and "s' = s2\<lparr>busIdle := False, UCSR1B := UCSR1B s2 OR push_bit UDRIE1 1\<rparr>"
      by (simp_all add: CCDLibrary_write_def Let_def)
    then show ?thesis by (simp add: bit_simps UDRIE1_def)
  qed
qed

section \<open>The examples, evaluated\<close>

lemma data_bit_eval:
  "data_bit rx_pin tx i
     \<lparr>IDbyteRX = r, currentRxBit = c, currentTxBit = t, error = e, TX_P = p, reads = k\<rparr> =
   \<lparr>IDbyteRX = (if rx_pin k then r OR push_bit i 1 else r),
    currentRxBit = rx_pin k,
    currentTxBit = (if e then t else bit tx i),
    error = (e \<or> rx_pin k \<noteq> (if e then t else bit tx i)),
    TX_P = (if e then p else bit tx i),
    reads = Suc k\<rparr>"
  by (simp add: data_bit_def sample_def Let_def)

lemma data_bits_unrolled:
  "data_bits rx_pin tx 0 a =
     data_bit rx_pin tx 7 (data_bit rx_pin tx 6 (data_bit rx_pin tx 5 (data_bit rx_pin tx 4
       (data_bit rx_pin tx 3 (data_bit rx_pin tx 2 (data_bit rx_pin tx 1
         (data_bit rx_pin tx 0 a)))))))"
proof -
  have step: "\<And>i a. i < 8 \<Longrightarrow> data_bits rx_pin tx i a = data_bits rx_pin tx (Suc i) (data_bit rx_pin tx i a)"
    by (simp add: data_bits.simps)
  have stop: "\<And>a. data_bits rx_pin tx 8 a = a"
    by (simp add: data_bits.simps)
  have "data_bits rx_pin tx 0 a = data_bits rx_pin tx 8
     (data_bit rx_pin tx 7 (data_bit rx_pin tx 6 (data_bit rx_pin tx 5 (data_bit rx_pin tx 4
       (data_bit rx_pin tx 3 (data_bit rx_pin tx 2 (data_bit rx_pin tx 1
         (data_bit rx_pin tx 0 a))))))))"
    by (simp add: step eval_nat_numeral)
  then show ?thesis by (simp only: stop)
qed


lemmas first_byte_eval = first_byte_def idle_check_def start_bit_def stop_bit_def sample_def
  data_bits_unrolled data_bit_eval Let_def

lemma ex_first_won:
  "first_byte (RX_PIN won_env) 0x24 =
     \<lparr>IDbyteRX = 0x24, currentRxBit = True, currentTxBit = False, error = False,
      TX_P = True, reads = 11\<rparr>"
  by (simp add: first_byte_eval won_env_def)

lemma ex_first_lost:
  "first_byte (RX_PIN lost_env) 0x24 =
     \<lparr>IDbyteRX = 0x04, currentRxBit = True, currentTxBit = True, error = True,
      TX_P = True, reads = 11\<rparr>"
  by (simp add: first_byte_eval lost_env_def)

lemma ex_stage: "write_stage quiet [0x24, 0x10, 0x00] 3 = Inr staged_state"
  by (simp add: write_stage_def Let_def copy_bytes.simps sum_bytes.simps example_defs)

lemma ex_wait_won:
  "wait_idle 4 (millis0 won_env) (polls won_env) False staged_state = Inr (False, idle_state)"
  by (simp add: example_defs handle_TIMER3_COMPA_vect_def busIdleTimerStop_def processMessage_def)

lemma ex_wait_lost:
  "wait_idle 4 (millis0 lost_env) (polls lost_env) False staged_state = Inr (False, idle_state)"
  by (simp add: example_defs handle_TIMER3_COMPA_vect_def busIdleTimerStop_def processMessage_def)

section \<open>Message Assembler and read: the claims\<close>

text \<open>
  C1 (amended). With checksum verification on, a cursor above 1 and within the buffer,
  and a last byte that is not the sum mod 256 of the bytes before it,
  \<open>processMessage\<close> returns with the message length 0 and the cursor 0, and it sets
  the availability flag: \<^verbatim>\<open>_lastMessageRead\<close> becomes false on this path too, so
  \<open>available\<close> then reports a message, of length 0. The message bytes and every other
  field keep their values.
\<close>

theorem processMessage_checksum_mismatch:
  assumes "verifyRxChecksum s" and "1 < serialRxBufferPos s"
    and "valid s" and "unat (serialRxBufferPos s) \<le> 16"
    and "\<not> checksum_ok (frame s)"
  shows "processMessage s =
           Inr (s\<lparr>messageLength := 0, serialRxBufferPos := 0, lastMessageRead := False\<rparr>) \<and>
         available (s\<lparr>messageLength := 0, serialRxBufferPos := 0, lastMessageRead := False\<rparr>)"
proof -
  have "2 \<le> unat (serialRxBufferPos s)"
    using assms(2) by (simp add: pos_gt_1)
  moreover have "unat (serialRxBufferPos s) \<le> length (serialRxBuffer s)"
    using assms(3,4) by (simp add: valid_def)
  ultimately show ?thesis
    using assms(1,5) by (simp add: processMessage_reject available_def)
qed

theorem processMessage_checksum_mismatch_witness:
  "verifyRxChecksum mismatch_state \<and> 1 < serialRxBufferPos mismatch_state \<and>
   valid mismatch_state \<and> unat (serialRxBufferPos mismatch_state) \<le> 16 \<and>
   \<not> checksum_ok (frame mismatch_state) \<and>
   processMessage mismatch_state =
     Inr (mismatch_state\<lparr>messageLength := 0, serialRxBufferPos := 0, lastMessageRead := False\<rparr>)"
  using processMessage_checksum_mismatch [of mismatch_state]
  by (simp add: example_defs valid_def checksum_ok_def frame_def)

text \<open>
  C1 as stated fails: in \<open>mismatch_state\<close> nothing is available before the idle
  event, the checksum of the staged frame does not match, and after \<open>processMessage\<close>
  the flag has changed.
\<close>

theorem mismatch_sets_available_counterexample:
  "verifyRxChecksum mismatch_state \<and> 1 < serialRxBufferPos mismatch_state \<and>
   \<not> checksum_ok (frame mismatch_state) \<and>
   lastMessageRead mismatch_state \<and>
   processMessage mismatch_state =
     Inr (mismatch_state\<lparr>messageLength := 0, serialRxBufferPos := 0, lastMessageRead := False\<rparr>) \<and>
   \<not> lastMessageRead
       (mismatch_state\<lparr>messageLength := 0, serialRxBufferPos := 0, lastMessageRead := False\<rparr>)"
  by (simp add: example_defs checksum_ok_def frame_def processMessage_def Let_def
      sum_bytes.simps)

text \<open>
  C2 (amended). \<open>read\<close> never looks at the availability flag and never clears the
  message length. Two calls in a row, with no frame assembled in between, both return
  the length of the message and both copy its bytes; the first call marks the message
  read, the second leaves the object as it is.
\<close>

theorem read_twice:
  assumes "unat (messageLength s) \<le> length (message s)"
    and "unat (messageLength s) \<le> length target"
    and "unat (messageLength s) \<le> length target2"
  shows "read s target =
           Inr (messageLength s,
                take (unat (messageLength s)) (message s) @ drop (unat (messageLength s)) target,
                s\<lparr>lastMessageRead := True\<rparr>) \<and>
         read (s\<lparr>lastMessageRead := True\<rparr>) target2 =
           Inr (messageLength s,
                take (unat (messageLength s)) (message s) @ drop (unat (messageLength s)) target2,
                s\<lparr>lastMessageRead := True\<rparr>) \<and>
         \<not> available (s\<lparr>lastMessageRead := True\<rparr>)"
  using assms read_ok [of s target] read_ok [of "s\<lparr>lastMessageRead := True\<rparr>" target2]
  by (simp add: available_def)

theorem read_twice_witness:
  "unat (messageLength assembled_state) \<le> length (message assembled_state) \<and>
   unat (messageLength assembled_state) \<le> length [0xAA, 0xBB, 0xCC, 0xDD :: u8] \<and>
   read assembled_state [0xAA, 0xBB, 0xCC, 0xDD] =
     Inr (3, [0x10, 0x20, 0x30, 0xDD], assembled_state\<lparr>lastMessageRead := True\<rparr>) \<and>
   read (assembled_state\<lparr>lastMessageRead := True\<rparr>) [0xAA, 0xBB, 0xCC, 0xDD] =
     Inr (3, [0x10, 0x20, 0x30, 0xDD], assembled_state\<lparr>lastMessageRead := True\<rparr>)"
  using read_twice [of assembled_state "[0xAA, 0xBB, 0xCC, 0xDD]" "[0xAA, 0xBB, 0xCC, 0xDD]"]
  by (simp add: example_defs)

text \<open>
  C2 as stated fails: after the Message Assembler has accepted a frame of three bytes,
  the second of two calls of \<open>read\<close> returns 3, not 0.
\<close>

theorem second_read_counterexample:
  "processMessage match_state = Inr assembled_state \<and>
   read assembled_state [0, 0, 0] =
     Inr (3, [0x10, 0x20, 0x30], assembled_state\<lparr>lastMessageRead := True\<rparr>) \<and>
   read (assembled_state\<lparr>lastMessageRead := True\<rparr>) [0, 0, 0] =
     Inr (3, [0x10, 0x20, 0x30], assembled_state\<lparr>lastMessageRead := True\<rparr>) \<and>
   (3 :: u8) \<noteq> 0"
  by (simp add: example_defs processMessage_def Let_def sum_bytes.simps copy_bytes.simps read_def)

text \<open>
  C10. An idle event that finds the cursor at 0 leaves the message state alone:
  \<open>processMessage\<close> returns the object unchanged, and after either idle handler
  (timer expiry or idle pin) the message bytes, the message length and the
  availability flag are what they were.
\<close>

theorem idle_with_empty_buffer:
  assumes "serialRxBufferPos s = 0"
  shows "processMessage s = Inr s \<and>
         (\<exists>s'. handle_TIMER3_COMPA_vect s = Inr s' \<and> message s' = message s \<and>
               messageLength s' = messageLength s \<and> lastMessageRead s' = lastMessageRead s) \<and>
         (\<exists>s'. busIdleInterruptHandler s = Inr s' \<and> message s' = message s \<and>
               messageLength s' = messageLength s \<and> lastMessageRead s' = lastMessageRead s)"
  using assms
  by (simp add: processMessage_empty handle_TIMER3_COMPA_vect_def busIdleInterruptHandler_def
      busIdleTimerStop_def)

theorem idle_with_empty_buffer_witness:
  "serialRxBufferPos assembled_state = 0 \<and> processMessage assembled_state = Inr assembled_state \<and>
   (\<exists>s'. handle_TIMER3_COMPA_vect assembled_state = Inr s' \<and> message s' = message assembled_state \<and>
         messageLength s' = messageLength assembled_state \<and>
         lastMessageRead s' = lastMessageRead assembled_state) \<and>
   (\<exists>s'. busIdleInterruptHandler assembled_state = Inr s' \<and> message s' = message assembled_state \<and>
         messageLength s' = messageLength assembled_state \<and>
         lastMessageRead s' = lastMessageRead assembled_state)"
proof -
  have "serialRxBufferPos assembled_state = 0" by (simp add: example_defs)
  with idle_with_empty_buffer [of assembled_state] show ?thesis by simp
qed

section \<open>Receive staging buffer: the claims\<close>



section \<open>write: the claims\<close>

text \<open>
  C8. A call of \<open>write\<close> with length 0 returns status 1 at once. The object returned
  is the object passed in, so no byte of the transmit staging buffer and no length has
  changed; the result does not depend on the environment, so no poll of the bus-idle
  flag has taken place.
\<close>

theorem write_zero_length: "CCDLibrary_write overflow env s buffer 0 = Inr (1, s)"
  by (simp add: CCDLibrary_write_def)

text \<open>
  C9. In hardware-assisted mode \<open>write\<close> never returns status 3: whatever it returns
  is 0, 1 or 2, and with status 0 the transmit-data-ready interrupt is enabled and the
  bus marked busy. It does return: from a sound object, for a buffer length within the
  staging buffer and the caller's buffer, once the clock passes the second at some
  poll.
\<close>

theorem write_with_transceiver:
  assumes "interruptsAvailable s"
  shows "(\<forall>st s'. CCDLibrary_write overflow env s buffer bufferLength = Inr (st, s') \<longrightarrow>
            st \<noteq> 3 \<and> (st = 0 \<or> st = 1 \<or> st = 2) \<and>
            (st = 0 \<longrightarrow> bit (UCSR1B s') UDRIE1 \<and> \<not> busIdle s')) \<and>
         (sound s \<and> unat bufferLength \<le> 16 \<and> unat bufferLength \<le> length buffer \<and>
          second_passes (millis0 env) (polls env) \<longrightarrow>
            (\<exists>st s'. CCDLibrary_write overflow env s buffer bufferLength = Inr (st, s')))"
proof (intro conjI allI impI)
  fix st s'
  assume w: "CCDLibrary_write overflow env s buffer bufferLength = Inr (st, s')"
  note r = transceiver_status [OF assms w]
  from r show "st \<noteq> 3" by simp
  from r show "st = 0 \<or> st = 1 \<or> st = 2" by simp
  {
    assume "st = 0"
    with r show "bit (UCSR1B s') UDRIE1" by simp
    from \<open>st = 0\<close> r show "\<not> busIdle s'" by simp
  }
next
  assume "sound s \<and> unat bufferLength \<le> 16 \<and> unat bufferLength \<le> length buffer \<and>
          second_passes (millis0 env) (polls env)"
  then show "\<exists>st s'. CCDLibrary_write overflow env s buffer bufferLength = Inr (st, s')"
    by (intro write_returns) simp_all
qed

theorem write_with_transceiver_witness:
  "interruptsAvailable transceiver_state \<and> sound transceiver_state \<and>
   unat (3 :: u8) \<le> 16 \<and> unat (3 :: u8) \<le> length [0x24, 0x10, 0x00 :: u8] \<and>
   second_passes (millis0 transceiver_env) (polls transceiver_env) \<and>
   CCDLibrary_write 4 transceiver_env transceiver_state [0x24, 0x10, 0x00] 3 =
     Inr (0, transceiver_state
               \<lparr>serialTxBuffer := [0x24, 0x10, 0x34, 0, 0, 0, 0, 0, 0, 0, 0, 0, 0, 0, 0, 0],
                serialTxBufferPos := 0, serialTxLength := 3, busIdle := False,
                UCSR1B := 0xB8\<rparr>) \<and>
   (0 :: u8) \<noteq> 3 \<and>
   bit (0xB8 :: u8) UDRIE1"
proof -
  have h: "interruptsAvailable transceiver_state"
    by (simp add: transceiver_state_def)
  have g: "sound transceiver_state" "unat (3 :: u8) \<le> 16"
    "unat (3 :: u8) \<le> length [0x24, 0x10, 0x00 :: u8]"
    "second_passes (millis0 transceiver_env) (polls transceiver_env)"
    by (simp_all add: sound_def valid_def second_passes_def example_defs)
  have w: "CCDLibrary_write 4 transceiver_env transceiver_state [0x24, 0x10, 0x00] 3 =
     Inr (0, transceiver_state
               \<lparr>serialTxBuffer := [0x24, 0x10, 0x34, 0, 0, 0, 0, 0, 0, 0, 0, 0, 0, 0, 0, 0],
                serialTxBufferPos := 0, serialTxLength := 3, busIdle := False,
                UCSR1B := 0xB8\<rparr>)"
    by (simp add: CCDLibrary_write_def write_stage_def Let_def copy_bytes.simps sum_bytes.simps
        example_defs UDRIE1_def)
  from write_with_transceiver [OF h, of 4 transceiver_env "[0x24, 0x10, 0x00]" 3] w
  have "bit (0xB8 :: u8) UDRIE1 \<and> (0 :: u8) \<noteq> 3" by simp
  then show ?thesis using h g w by simp
qed

text \<open>
  C3, evaluated where it fails. The bus stays busy for more than a second, \<open>write\<close>
  returns status 2, and the frame staged before the wait is still in the transmit
  staging buffer with its length 3 recorded: the return of line 153 does not undo the
  staging of lines 132--143, unlike the collision path of lines 268--270.
\<close>

theorem write_timeout_keeps_staged_frame:
  "CCDLibrary_write 4 timeout_env quiet [0x24, 0x10, 0x00] 3 =
     Inr (2, quiet\<lparr>serialTxBuffer := [0x24, 0x10, 0x34, 0, 0, 0, 0, 0, 0, 0, 0, 0, 0, 0, 0, 0],
                   serialTxBufferPos := 0, serialTxLength := 3\<rparr>)"
  by (simp add: CCDLibrary_write_def write_stage_def Let_def copy_bytes.simps sum_bytes.simps example_defs)

text \<open>
  C4. Software-arbitration mode, a call within bounds whose wait ended with the bus
  idle. If the bit-banged first byte flagged an error, or the byte sampled differs from
  the byte the caller wanted to send, \<open>write\<close> returns status 3 with the transmit
  position and length both 0, the sampled byte at index 0 of the receive staging
  buffer and the receive cursor at 1.
\<close>

theorem arbitration_lost:
  assumes "\<not> interruptsAvailable s" and "valid s"
    and "bufferLength \<noteq> 0" and "unat bufferLength \<le> 16"
    and "unat bufferLength \<le> length buffer"
    and "write_stage s buffer bufferLength = Inr s1"
    and "wait_idle overflow (millis0 env) (polls env) False s1 = Inr (False, s2)"
    and "error (first_byte (RX_PIN env) (buffer ! 0)) \<or>
         IDbyteRX (first_byte (RX_PIN env) (buffer ! 0)) \<noteq> buffer ! 0"
  shows "\<exists>s'. CCDLibrary_write overflow env s buffer bufferLength = Inr (3, s') \<and>
           serialTxBufferPos s' = 0 \<and> serialTxLength s' = 0 \<and>
           serialRxBuffer s' ! 0 = IDbyteRX (first_byte (RX_PIN env) (buffer ! 0)) \<and>
           serialRxBufferPos s' = 1"
proof -
  note e = arbitration_entry [OF assms(1-7)]
  show ?thesis
    using assms(8) e(3,4) unfolding e(1)
    by (auto simp: arbitrate_def Let_def e(2) busIdleTimerStart_def)
qed

theorem arbitration_lost_witness:
  "\<not> interruptsAvailable quiet \<and> valid quiet \<and> (3 :: u8) \<noteq> 0 \<and> unat (3 :: u8) \<le> 16 \<and>
   unat (3 :: u8) \<le> length [0x24, 0x10, 0x00 :: u8] \<and>
   write_stage quiet [0x24, 0x10, 0x00] 3 = Inr staged_state \<and>
   wait_idle 4 (millis0 lost_env) (polls lost_env) False staged_state = Inr (False, idle_state) \<and>
   IDbyteRX (first_byte (RX_PIN lost_env) ([0x24, 0x10, 0x00] ! 0)) = 0x04 \<and>
   error (first_byte (RX_PIN lost_env) ([0x24, 0x10, 0x00] ! 0)) \<and>
   (\<exists>s'. CCDLibrary_write 4 lost_env quiet [0x24, 0x10, 0x00] 3 = Inr (3, s') \<and>
      serialTxBufferPos s' = 0 \<and> serialTxLength s' = 0 \<and>
      serialRxBuffer s' ! 0 = 0x04 \<and> serialRxBufferPos s' = 1)"
proof -
  have h: "\<not> interruptsAvailable quiet" "valid quiet" "(3 :: u8) \<noteq> 0" "unat (3 :: u8) \<le> 16"
    "unat (3 :: u8) \<le> length [0x24, 0x10, 0x00 :: u8]"
    by (simp_all add: valid_def quiet_def zeros16_def)
  have b: "[0x24, 0x10, 0x00 :: u8] ! 0 = 0x24" by simp
  have f: "IDbyteRX (first_byte (RX_PIN lost_env) ([0x24, 0x10, 0x00] ! 0)) = 0x04"
    "error (first_byte (RX_PIN lost_env) ([0x24, 0x10, 0x00] ! 0))"
    by (simp_all only: b ex_first_lost arbitration.simps)
  have l: "error (first_byte (RX_PIN lost_env) ([0x24, 0x10, 0x00] ! 0)) \<or>
        IDbyteRX (first_byte (RX_PIN lost_env) ([0x24, 0x10, 0x00] ! 0)) \<noteq> [0x24, 0x10, 0x00] ! 0"
    using f(2) by (rule disjI1)
  from arbitration_lost [OF h ex_stage ex_wait_lost l]
  show ?thesis using h ex_stage ex_wait_lost f by (simp only: f(1)) simp
qed

text \<open>
  C5. Software-arbitration mode, a call within bounds whose wait ended with the bus
  idle. If the bit-banged first byte flagged no error and the byte sampled equals the
  byte the caller wanted to send, \<open>write\<close> returns status 0 with the transmit position
  at 1 and the transmit-data-ready interrupt enabled; the staged frame and its length
  are kept for the interrupt-driven transmitter, and the echoed byte is queued at
  index 0 of the receive staging buffer.
\<close>

theorem arbitration_won:
  assumes "\<not> interruptsAvailable s" and "valid s"
    and "bufferLength \<noteq> 0" and "unat bufferLength \<le> 16"
    and "unat bufferLength \<le> length buffer"
    and "write_stage s buffer bufferLength = Inr s1"
    and "wait_idle overflow (millis0 env) (polls env) False s1 = Inr (False, s2)"
    and "\<not> error (first_byte (RX_PIN env) (buffer ! 0))"
    and "IDbyteRX (first_byte (RX_PIN env) (buffer ! 0)) = buffer ! 0"
  shows "\<exists>s'. CCDLibrary_write overflow env s buffer bufferLength = Inr (0, s') \<and>
           serialTxBufferPos s' = 1 \<and> bit (UCSR1B s') UDRIE1 \<and>
           serialTxLength s' = serialTxLength s2 \<and> serialTxBuffer s' = serialTxBuffer s1 \<and>
           serialRxBuffer s' ! 0 = buffer ! 0 \<and> serialRxBufferPos s' = 1"
proof -
  note e = arbitration_entry [OF assms(1-7)]
  show ?thesis
    using assms(8,9) e(3,4) unfolding e(1)
    by (auto simp: arbitrate_def Let_def e(2) e(5) [symmetric] busIdleTimerStart_def
        bit_simps UDRIE1_def)
qed

theorem arbitration_won_witness:
  "\<not> interruptsAvailable quiet \<and> valid quiet \<and> (3 :: u8) \<noteq> 0 \<and> unat (3 :: u8) \<le> 16 \<and>
   unat (3 :: u8) \<le> length [0x24, 0x10, 0x00 :: u8] \<and>
   write_stage quiet [0x24, 0x10, 0x00] 3 = Inr staged_state \<and>
   wait_idle 4 (millis0 won_env) (polls won_env) False staged_state = Inr (False, idle_state) \<and>
   \<not> error (first_byte (RX_PIN won_env) ([0x24, 0x10, 0x00] ! 0)) \<and>
   IDbyteRX (first_byte (RX_PIN won_env) ([0x24, 0x10, 0x00] ! 0)) = [0x24, 0x10, 0x00] ! 0 \<and>
   (\<exists>s'. CCDLibrary_write 4 won_env quiet [0x24, 0x10, 0x00] 3 = Inr (0, s') \<and>
      serialTxBufferPos s' = 1 \<and> bit (UCSR1B s') UDRIE1 \<and> serialTxLength s' = 3 \<and>
      serialRxBuffer s' ! 0 = 0x24 \<and> serialRxBufferPos s' = 1)"
proof -
  have h: "\<not> interruptsAvailable quiet" "valid quiet" "(3 :: u8) \<noteq> 0" "unat (3 :: u8) \<le> 16"
    "unat (3 :: u8) \<le> length [0x24, 0x10, 0x00 :: u8]"
    by (simp_all add: valid_def quiet_def zeros16_def)
  have b: "[0x24, 0x10, 0x00 :: u8] ! 0 = 0x24" by simp
  have f: "\<not> error (first_byte (RX_PIN won_env) ([0x24, 0x10, 0x00] ! 0))"
    "IDbyteRX (first_byte (RX_PIN won_env) ([0x24, 0x10, 0x00] ! 0)) = [0x24, 0x10, 0x00] ! 0"
    by (simp_all only: b ex_first_won arbitration.simps) simp_all
  have n: "serialTxLength idle_state = 3"
    by (simp add: idle_state_def staged_state_def)
  from arbitration_won [OF h ex_stage ex_wait_won f]
  show ?thesis using h ex_stage ex_wait_won f by (auto simp: n)
qed

section \<open>Checksum: the claims\<close>

text \<open>
  C6. Transmit-checksum generation is on, the object is sound, the buffer length is 2
  to 16 and within the caller's buffer, and the clock passes the second at some poll.
  Then \<open>write\<close> returns, and in the object it returns byte \<open>length - 1\<close> of the
  transmit staging buffer is the sum mod 256 of the caller's bytes \<open>0 .. length - 2\<close>,
  which are staged as given; the staged frame satisfies the checksum rule. On the
  receiving side, with verification on and a staged frame of length 2 to 16, the
  Message Assembler accepts the frame exactly when its last byte is the sum mod 256 of
  the bytes before it. Round trip: a receiver with verification on and an empty
  staging buffer that receives the frame \<open>write\<close> has staged, byte by byte, accepts it
  at the next idle event.
\<close>

theorem checksum_round_trip:
  assumes "calculateTxChecksum s" and "sound s"
    and "2 \<le> unat bufferLength" and "unat bufferLength \<le> 16"
    and "unat bufferLength \<le> length buffer"
    and "second_passes (millis0 env) (polls env)"
  shows "\<exists>st s'. CCDLibrary_write overflow env s buffer bufferLength = Inr (st, s') \<and>
      unat (serialTxBuffer s' ! (unat bufferLength - 1)) =
        sum_list (map unat (take (unat bufferLength - 1) buffer)) mod 256 \<and>
      take (unat bufferLength - 1) (serialTxBuffer s') = take (unat bufferLength - 1) buffer \<and>
      checksum_ok (take (unat bufferLength) (serialTxBuffer s')) \<and>
      (verifyRxChecksum r \<and> valid r \<and> 2 \<le> unat (serialRxBufferPos r) \<and>
       unat (serialRxBufferPos r) \<le> 16 \<longrightarrow>
         (accepted r \<longleftrightarrow> checksum_ok (frame r))) \<and>
      (verifyRxChecksum fresh \<and> valid fresh \<and> serialRxBufferPos fresh = 0 \<longrightarrow>
         accepted (receive_all overflow
                     (map (Pair usr) (take (unat bufferLength) (serialTxBuffer s'))) fresh))"
proof -
  let ?n = "unat bufferLength"
  have v: "valid s" using assms(2) by (simp add: sound_def)
  have txlen: "length (serialTxBuffer s) = 16" using v by (simp add: valid_def)
  have inb: "?n \<le> length (serialTxBuffer s)" using assms(4) txlen by simp
  from write_stage_ok [OF inb assms(5)]
  obtain s1 where stage: "write_stage s buffer bufferLength = Inr s1" by blast
  note st = staged_checksum [OF assms(1,3) inb assms(5) stage]
  have nz: "bufferLength \<noteq> 0" using assms(3) by auto
  from write_returns [OF assms(2,4,5,6), of overflow]
  obtain st s' where w: "CCDLibrary_write overflow env s buffer bufferLength = Inr (st, s')"
    by blast
  have tx: "serialTxBuffer s' = serialTxBuffer s1"
    using stage w nz by (rule write_keeps_staged_bytes)
  have stamp: "unat (serialTxBuffer s' ! (?n - 1)) =
      sum_list (map unat (take (?n - 1) buffer)) mod 256"
    by (simp only: tx st(1) unat_sum_list)
  have pre: "take (?n - 1) (serialTxBuffer s') = take (?n - 1) buffer"
    by (simp only: tx st(2))
  have recv: "verifyRxChecksum r \<and> valid r \<and> 2 \<le> unat (serialRxBufferPos r) \<and>
       unat (serialRxBufferPos r) \<le> 16 \<longrightarrow> (accepted r \<longleftrightarrow> checksum_ok (frame r))"
  proof
    assume a: "verifyRxChecksum r \<and> valid r \<and> 2 \<le> unat (serialRxBufferPos r) \<and>
       unat (serialRxBufferPos r) \<le> 16"
    then have "unat (serialRxBufferPos r) \<le> length (serialRxBuffer r)"
      "unat (serialRxBufferPos r) \<le> length (message r)"
      by (simp_all add: valid_def)
    with a show "accepted r \<longleftrightarrow> checksum_ok (frame r)"
      by (intro accepted_iff) simp_all
  qed
  have len1: "?n \<le> length (serialTxBuffer s')" using st(3) inb by (simp add: tx)
  have "serialTxBuffer s' ! (?n - 1) = sum_list (take (?n - 1) (serialTxBuffer s'))"
    by (simp only: tx st(1) st(2))
  from stamped_frame_ok [OF assms(3) len1 this]
  have ok: "checksum_ok (take ?n (serialTxBuffer s'))" .
  have flen: "2 \<le> length (take ?n (serialTxBuffer s'))" "length (take ?n (serialTxBuffer s')) \<le> 16"
    using len1 assms(3,4) by simp_all
  have trip: "verifyRxChecksum fresh \<and> valid fresh \<and> serialRxBufferPos fresh = 0 \<longrightarrow>
         accepted (receive_all overflow (map (Pair usr) (take ?n (serialTxBuffer s'))) fresh)"
    using receive_staged_frame [OF _ _ _ flen ok] by blast
  from w stamp pre ok recv trip show ?thesis by blast
qed

theorem checksum_round_trip_witness:
  "calculateTxChecksum transceiver_state \<and> sound transceiver_state \<and>
   2 \<le> unat (3 :: u8) \<and> unat (3 :: u8) \<le> 16 \<and>
   unat (3 :: u8) \<le> length [0x24, 0x10, 0x00 :: u8] \<and>
   second_passes (millis0 transceiver_env) (polls transceiver_env) \<and>
   CCDLibrary_write 4 transceiver_env transceiver_state [0x24, 0x10, 0x00] 3 =
     Inr (0, transceiver_state
               \<lparr>serialTxBuffer := [0x24, 0x10, 0x34, 0, 0, 0, 0, 0, 0, 0, 0, 0, 0, 0, 0, 0],
                serialTxBufferPos := 0, serialTxLength := 3, busIdle := False,
                UCSR1B := 0xB8\<rparr>) \<and>
   unat ([0x24, 0x10, 0x34, 0, 0, 0, 0, 0, 0, 0, 0, 0, 0, 0, 0, 0 :: u8] ! 2) = (0x24 + 0x10) mod 256 \<and>
   checksum_ok [0x24, 0x10, 0x34] \<and>
   verifyRxChecksum match_state \<and> valid match_state \<and>
   2 \<le> unat (serialRxBufferPos match_state) \<and> unat (serialRxBufferPos match_state) \<le> 16 \<and>
   checksum_ok (frame match_state) \<and> accepted match_state \<and>
   verifyRxChecksum mismatch_state \<and> valid mismatch_state \<and>
   2 \<le> unat (serialRxBufferPos mismatch_state) \<and> unat (serialRxBufferPos mismatch_state) \<le> 16 \<and>
   \<not> checksum_ok (frame mismatch_state) \<and> \<not> accepted mismatch_state \<and>
   verifyRxChecksum quiet \<and> valid quiet \<and> serialRxBufferPos quiet = 0 \<and>
   accepted (receive_all 4 [(0, 0x24), (0, 0x10), (0, 0x34)] quiet)"
proof -
  let ?X = "transceiver_state
               \<lparr>serialTxBuffer := [0x24, 0x10, 0x34, 0, 0, 0, 0, 0, 0, 0, 0, 0, 0, 0, 0, 0],
                serialTxBufferPos := 0, serialTxLength := 3, busIdle := False,
                UCSR1B := 0xB8\<rparr>"
  have h: "calculateTxChecksum transceiver_state" "sound transceiver_state"
    "2 \<le> unat (3 :: u8)" "unat (3 :: u8) \<le> 16"
    "unat (3 :: u8) \<le> length [0x24, 0x10, 0x00 :: u8]"
    "second_passes (millis0 transceiver_env) (polls transceiver_env)"
    by (simp_all add: sound_def valid_def second_passes_def example_defs)
  have w: "CCDLibrary_write 4 transceiver_env transceiver_state [0x24, 0x10, 0x00] 3 = Inr (0, ?X)"
    by (simp add: CCDLibrary_write_def write_stage_def Let_def copy_bytes.simps sum_bytes.simps
        example_defs UDRIE1_def)
  have q: "verifyRxChecksum quiet" "valid quiet" "serialRxBufferPos quiet = 0"
    by (simp_all add: valid_def quiet_def zeros16_def)
  have m: "verifyRxChecksum match_state" "valid match_state"
    "2 \<le> unat (serialRxBufferPos match_state)" "unat (serialRxBufferPos match_state) \<le> 16"
    "checksum_ok (frame match_state)"
    by (simp_all add: valid_def checksum_ok_def frame_def example_defs)
  have mm: "verifyRxChecksum mismatch_state" "valid mismatch_state"
    "2 \<le> unat (serialRxBufferPos mismatch_state)" "unat (serialRxBufferPos mismatch_state) \<le> 16"
    "\<not> checksum_ok (frame mismatch_state)"
    by (simp_all add: valid_def checksum_ok_def frame_def example_defs)
  have t: "take (unat (3 :: u8)) (serialTxBuffer ?X) = [0x24, 0x10, 0x34]"
    "map (Pair (0 :: u8)) [0x24, 0x10, 0x34 :: u8] = [(0, 0x24), (0, 0x10), (0, 0x34)]"
    by simp_all
  have a: "accepted match_state \<longleftrightarrow> checksum_ok (frame match_state)"
    using checksum_round_trip [OF h, where r = match_state] m(1-4) by blast
  have b: "accepted mismatch_state \<longleftrightarrow> checksum_ok (frame mismatch_state)"
    using checksum_round_trip [OF h, where r = mismatch_state] mm(1-4) by blast
  from checksum_round_trip [OF h, where overflow = 4 and fresh = quiet and usr = 0]
  obtain st s' where w': "CCDLibrary_write 4 transceiver_env transceiver_state [0x24, 0x10, 0x00] 3 = Inr (st, s')"
    and stamp: "unat (serialTxBuffer s' ! (unat (3 :: u8) - 1)) =
        sum_list (map unat (take (unat (3 :: u8) - 1) [0x24, 0x10, 0x00 :: u8])) mod 256"
    and ok: "checksum_ok (take (unat (3 :: u8)) (serialTxBuffer s'))"
    and trip: "verifyRxChecksum quiet \<and> valid quiet \<and> serialRxBufferPos quiet = 0 \<longrightarrow>
         accepted (receive_all 4 (map (Pair 0) (take (unat (3 :: u8)) (serialTxBuffer s'))) quiet)"
    by blast
  from w w' have s': "s' = ?X" by simp
  from trip q have "accepted (receive_all 4 (map (Pair 0) (take (unat (3 :: u8)) (serialTxBuffer ?X))) quiet)"
    unfolding s' by blast
  then have c: "accepted (receive_all 4 [(0, 0x24), (0, 0x10), (0, 0x34)] quiet)"
    by (simp only: t)
  from ok have d: "checksum_ok [0x24, 0x10, 0x34]"
    unfolding s' by (simp only: t)
  from stamp have e: "unat ([0x24, 0x10, 0x34, 0, 0, 0, 0, 0, 0, 0, 0, 0, 0, 0, 0, 0 :: u8] ! 2) = (0x24 + 0x10) mod 256"
    unfolding s' by simp
  show ?thesis
    using h w q m mm a b c d e by simp
qed

end
